theory Spec2Isabelle
  imports Main "HOL-Library.Monad_Syntax" "HOL-Library.Signed_Division"
begin

section \<open>The memory model\<close>

text \<open>
  The C functions of \<^verbatim>\<open>binsearchshuffle.c\<close> work on an \<^verbatim>\<open>int *\<close> and an \<^verbatim>\<open>int\<close> count.
  The backing array is a list of integers whose length is the capacity the caller owns;
  indices and counts are integers as in C, and \<^verbatim>\<open>/\<close> is the truncating division
  \<open>sdiv\<close>. An access outside the backing array is undefined behaviour in C: here it
  is the value \<open>None\<close>, and so is a loop that never returns.
  Elements are only compared and copied, never used in arithmetic. An \<^verbatim>\<open>int\<close> has 32
  bits. Every index the functions compute from a count that is not negative lies between
  \<open>-1\<close> and the count plus one, with one exception: the midpoint \<^verbatim>\<open>(first+end)/2\<close> of
  the slot search of \<^verbatim>\<open>InsertShuffledArrayValue\<close> adds two indices. That sum is
  \<open>int_add\<close>: a signed addition whose result leaves the \<^verbatim>\<open>int\<close> range is undefined
  behaviour in C, and \<open>None\<close> here.
\<close>

definition INT_MAX :: int where
  "INT_MAX = 2147483647"

definition INT_MIN :: int where
  "INT_MIN = - 2147483648"

definition int_add :: "int \<Rightarrow> int \<Rightarrow> int option" where
  "int_add a b = (if INT_MIN \<le> a + b \<and> a + b \<le> INT_MAX then Some (a + b) else None)"

definition rd :: "int list \<Rightarrow> int \<Rightarrow> int option" where
  "rd a i = (if 0 \<le> i \<and> i < int (length a) then Some (a ! nat i) else None)"

definition wr :: "int list \<Rightarrow> int \<Rightarrow> int \<Rightarrow> int list option" where
  "wr a i v = (if 0 \<le> i \<and> i < int (length a) then Some (a[nat i := v]) else None)"

text \<open>\<^verbatim>\<open>memmove(&a[dst], &a[src], n * sizeof(int))\<close>: the \<open>n\<close> elements from \<open>src\<close> are
  copied to \<open>dst\<close> as if through a temporary buffer.\<close>

definition memmove :: "int list \<Rightarrow> int \<Rightarrow> int \<Rightarrow> int \<Rightarrow> int list option" where
  "memmove a dst src n =
     (if 0 \<le> n \<and> 0 \<le> dst \<and> 0 \<le> src \<and> dst + n \<le> int (length a) \<and> src + n \<le> int (length a)
      then Some (take (nat dst) a @ take (nat n) (drop (nat src) a) @ drop (nat (dst + n)) a)
      else None)"

section \<open>ShuffledBinarySearch\<close>

text \<open>The loop of \<^verbatim>\<open>ShuffledBinarySearch\<close>. The result is the list of the indices at
  which \<^verbatim>\<open>shuffled_array\<close> is read, in the order of the reads, and the value returned
  (\<open>None\<close> when a read leaves the backing array).\<close>

function ShuffledBinarySearch_loop :: "int \<Rightarrow> int list \<Rightarrow> int \<Rightarrow> int \<Rightarrow> int list \<times> int option" where
  "ShuffledBinarySearch_loop val shuffled_array index count =
     (if count \<noteq> 0 then
        (case rd shuffled_array index of
           None \<Rightarrow> ([index], None)
         | Some read \<Rightarrow>
             if val = read then ([index], Some index)
             else if val > read then
               (let r = ShuffledBinarySearch_loop val shuffled_array
                          (index + (count sdiv 2 + 1)) ((count - 1) sdiv 2)
                in (index # fst r, snd r))
             else
               (let r = ShuffledBinarySearch_loop val shuffled_array (index + 1) (count sdiv 2)
                in (index # fst r, snd r)))
      else ([], Some (- 1)))"
  by pat_completeness auto
termination
proof (relation "measures [\<lambda>(v, a, i, c). nat \<bar>c\<bar>, \<lambda>(v, a, i, c). nat (int (length a) - i)]",
    goal_cases)
  case 1
  show ?case by simp
next
  case (2 val a index count read)
  then have r: "0 \<le> index" "index < int (length a)"
    by (auto simp: rd_def split: if_splits)
  show ?case
  proof (cases "count = - 1")
    case True
    with r show ?thesis by (simp add: signed_divide_int_def)
  next
    case False
    with 2 have "\<bar>(count - 1) sdiv 2\<bar> < \<bar>count\<bar>"
      by (auto simp: signed_divide_int_def abs_mult sgn_if)
    with 2 show ?thesis by simp
  qed
next
  case (3 val a index count read)
  then have "\<bar>count sdiv 2\<bar> < \<bar>count\<bar>"
    by (auto simp: signed_divide_int_def abs_mult sgn_if)
  with 3 show ?case by simp
qed

definition ShuffledBinarySearch :: "int \<Rightarrow> int list \<Rightarrow> int \<Rightarrow> int option" where
  "ShuffledBinarySearch val shuffled_array count =
     snd (ShuffledBinarySearch_loop val shuffled_array 0 count)"

definition search_reads :: "int \<Rightarrow> int list \<Rightarrow> int \<Rightarrow> int list" where
  "search_reads val shuffled_array count =
     fst (ShuffledBinarySearch_loop val shuffled_array 0 count)"

section \<open>DeshuffleIndex\<close>

partial_function (option) DeshuffleIndex_loop :: "int \<Rightarrow> int \<Rightarrow> int \<Rightarrow> int \<Rightarrow> int option" where
  "DeshuffleIndex_loop index count m d =
     (if index \<noteq> 0 then
        (if index > m then
           (let index = index - (m + 1);
                count = (count - 1) sdiv 2;
                d = d + 1;
                m = count sdiv 2;
                d = d + m
            in DeshuffleIndex_loop index count m d)
         else
           (let index = index - 1;
                count = m;
                d = d - m;
                m = count sdiv 2;
                d = d + m
            in DeshuffleIndex_loop index count m d))
      else Some d)"

declare DeshuffleIndex_loop.simps [code]

definition DeshuffleIndex :: "int \<Rightarrow> int \<Rightarrow> int option" where
  "DeshuffleIndex index count =
     (if index < 0 \<or> index \<ge> count then Some (- 1)
      else (let m = count sdiv 2; d = m in DeshuffleIndex_loop index count m d))"

section \<open>ShuffleSortedArray and SortShuffledArray\<close>

text \<open>The element moves the source writes inline through \<^verbatim>\<open>tmp\<close>:
  \<^verbatim>\<open>tmp = a[i]; a[i] = a[j]; a[j] = tmp\<close> and
  \<^verbatim>\<open>tmp = a[i]; a[i] = a[j]; a[j] = a[k]; a[k] = tmp\<close>.\<close>

definition swap :: "int list \<Rightarrow> int \<Rightarrow> int \<Rightarrow> int list option" where
  "swap a i j = do {
     tmp \<leftarrow> rd a i;
     x \<leftarrow> rd a j;
     a \<leftarrow> wr a i x;
     wr a j tmp }"

definition shift3 :: "int list \<Rightarrow> int \<Rightarrow> int \<Rightarrow> int \<Rightarrow> int list option" where
  "shift3 a i j k = do {
     tmp \<leftarrow> rd a i;
     x \<leftarrow> rd a j;
     a \<leftarrow> wr a i x;
     y \<leftarrow> rd a k;
     a \<leftarrow> wr a j y;
     wr a k tmp }"

text \<open>The work list \<^verbatim>\<open>aStack[MAX_SHUFFLE_COUNT_LOG2]\<close> with its fill level \<^verbatim>\<open>stk\<close> is
  a list of \<open>(first, count)\<close> pairs, the entry \<^verbatim>\<open>aStack[stk - 1]\<close> at the head. Writing
  \<^verbatim>\<open>aStack[stk]\<close> when \<^verbatim>\<open>stk\<close> is 64 leaves the array.\<close>

definition MAX_SHUFFLE_COUNT_LOG2 :: nat where
  "MAX_SHUFFLE_COUNT_LOG2 = 64"

definition push :: "(int \<times> int) list \<Rightarrow> int \<times> int \<Rightarrow> (int \<times> int) list option" where
  "push aStack e = (if length aStack < MAX_SHUFFLE_COUNT_LOG2 then Some (e # aStack) else None)"

definition pop :: "(int \<times> int) list \<Rightarrow> (int \<times> int \<times> (int \<times> int) list) option" where
  "pop aStack = (case aStack of [] \<Rightarrow> None | (f, c) # rest \<Rightarrow> Some (f, c, rest))"

type_synonym shuffle_state = "int list \<times> int \<times> int \<times> (int \<times> int) list"

text \<open>The \<^verbatim>\<open>switch (count)\<close> of \<^verbatim>\<open>ShuffleSortedArray\<close>: from the array, \<^verbatim>\<open>first\<close>,
  \<^verbatim>\<open>count\<close> and the work list to their values after the statement.\<close>

definition ShuffleSortedArray_switch ::
  "int list \<Rightarrow> int \<Rightarrow> int \<Rightarrow> (int \<times> int) list \<Rightarrow> shuffle_state option" where
  "ShuffleSortedArray_switch array first count aStack =
     (if count = 2 \<or> count = 3 then do {
        array \<leftarrow> swap array first (first + 1);
        Some (array, first, 0, aStack) }
      else if count = 4 then do {
        array \<leftarrow> swap array first (first + 2);
        Some (array, first, 0, aStack) }
      else if count = 5 then do {
        array \<leftarrow> swap array first (first + 2);
        array \<leftarrow> swap array (first + 3) (first + 4);
        Some (array, first, 0, aStack) }
      else if count = 6 \<or> count = 7 then do {
        array \<leftarrow> shift3 array first (first + 3) (first + 2);
        array \<leftarrow> swap array (first + 4) (first + 5);
        Some (array, first, 0, aStack) }
      else if count = 8 then do {
        array \<leftarrow> shift3 array first (first + 4) (first + 3);
        array \<leftarrow> swap array (first + 1) (first + 2);
        array \<leftarrow> swap array (first + 5) (first + 6);
        Some (array, first, 0, aStack) }
      else do {
        tmp \<leftarrow> rd array (first + count sdiv 2);
        array \<leftarrow> memmove array (first + 1) first (count sdiv 2);
        array \<leftarrow> wr array first tmp;
        let first = first + 1;
        aStack \<leftarrow> push aStack (first + count sdiv 2, (count - 1) sdiv 2);
        Some (array, first, count sdiv 2, aStack) })"

partial_function (option) ShuffleSortedArray_loop ::
  "int list \<Rightarrow> int \<Rightarrow> int \<Rightarrow> (int \<times> int) list \<Rightarrow> int list option" where
  "ShuffleSortedArray_loop array first count aStack =
     (if count > 1 \<or> aStack \<noteq> [] then do {
        (first, count, aStack) \<leftarrow>
          (if count \<le> 1 then pop aStack else Some (first, count, aStack));
        (array, first, count, aStack) \<leftarrow> ShuffleSortedArray_switch array first count aStack;
        ShuffleSortedArray_loop array first count aStack }
      else Some array)"

declare ShuffleSortedArray_loop.simps [code]

definition ShuffleSortedArray :: "int list \<Rightarrow> int \<Rightarrow> int list option" where
  "ShuffleSortedArray array count = ShuffleSortedArray_loop array 0 count []"

text \<open>The \<^verbatim>\<open>switch (count)\<close> of \<^verbatim>\<open>SortShuffledArray\<close>; it has no case for 8.\<close>

definition SortShuffledArray_switch ::
  "int list \<Rightarrow> int \<Rightarrow> int \<Rightarrow> (int \<times> int) list \<Rightarrow> shuffle_state option" where
  "SortShuffledArray_switch array first count aStack =
     (if count = 2 \<or> count = 3 then do {
        array \<leftarrow> swap array first (first + 1);
        Some (array, first, 0, aStack) }
      else if count = 4 then do {
        array \<leftarrow> swap array first (first + 2);
        Some (array, first, 0, aStack) }
      else if count = 5 then do {
        array \<leftarrow> swap array first (first + 2);
        array \<leftarrow> swap array (first + 3) (first + 4);
        Some (array, first, 0, aStack) }
      else if count = 6 \<or> count = 7 then do {
        array \<leftarrow> shift3 array first (first + 2) (first + 3);
        array \<leftarrow> swap array (first + 4) (first + 5);
        Some (array, first, 0, aStack) }
      else do {
        tmp \<leftarrow> rd array first;
        array \<leftarrow> memmove array first (first + 1) (count sdiv 2);
        array \<leftarrow> wr array (first + count sdiv 2) tmp;
        aStack \<leftarrow> push aStack (first + 1 + count sdiv 2, (count - 1) sdiv 2);
        Some (array, first, count sdiv 2, aStack) })"

partial_function (option) SortShuffledArray_loop ::
  "int list \<Rightarrow> int \<Rightarrow> int \<Rightarrow> (int \<times> int) list \<Rightarrow> int list option" where
  "SortShuffledArray_loop array first count aStack =
     (if count > 1 \<or> aStack \<noteq> [] then do {
        (first, count, aStack) \<leftarrow>
          (if count \<le> 1 then pop aStack else Some (first, count, aStack));
        (array, first, count, aStack) \<leftarrow> SortShuffledArray_switch array first count aStack;
        SortShuffledArray_loop array first count aStack }
      else Some array)"

declare SortShuffledArray_loop.simps [code]

definition SortShuffledArray :: "int list \<Rightarrow> int \<Rightarrow> int list option" where
  "SortShuffledArray array count = SortShuffledArray_loop array 0 count []"

section \<open>RemoveShuffledArrayValue and InsertShuffledArrayValue\<close>

text \<open>Both return the array after the call and the new count.\<close>

definition RemoveShuffledArrayValue :: "int \<Rightarrow> int list \<Rightarrow> int \<Rightarrow> (int list \<times> int) option" where
  "RemoveShuffledArrayValue val shuffled_array count = do {
     index \<leftarrow> ShuffledBinarySearch val shuffled_array count;
     if index \<ge> 0 then do {
       shuffled_array \<leftarrow> SortShuffledArray shuffled_array count;
       deshuf \<leftarrow> DeshuffleIndex index count;
       shuffled_array \<leftarrow>
         (if deshuf < count - 1
          then memmove shuffled_array deshuf (deshuf + 1) (count - 1 - deshuf)
          else Some shuffled_array);
       let count = count - 1;
       shuffled_array \<leftarrow> ShuffleSortedArray shuffled_array count;
       Some (shuffled_array, count) }
     else Some (shuffled_array, count) }"

text \<open>The slot search of \<^verbatim>\<open>InsertShuffledArrayValue\<close>; it returns \<open>(first, end, index)\<close>
  as they are when the loop is left (\<open>en\<close> stands for \<^verbatim>\<open>end\<close>). \<open>s\<close> is
  \<^verbatim>\<open>first+end\<close>, computed in \<^verbatim>\<open>int\<close>. \<open>slot\<close> is the
  condition of the \<^verbatim>\<open>break\<close>: \<^verbatim>\<open>shuffled_array[index-1]\<close> is read only when
  \<^verbatim>\<open>read>value\<close> holds and \<^verbatim>\<open>index\<close> is not 0.\<close>

partial_function (option) insert_slot_loop ::
  "int \<Rightarrow> int list \<Rightarrow> int \<Rightarrow> int \<Rightarrow> int \<Rightarrow> (int \<times> int \<times> int) option" where
  "insert_slot_loop val shuffled_array first en index =
     (if en \<noteq> first then do {
        s \<leftarrow> int_add first en;
        let index = s sdiv 2;
        read \<leftarrow> rd shuffled_array index;
        slot \<leftarrow>
          (if read > val then
             (if index = 0 then Some True
              else do { prev \<leftarrow> rd shuffled_array (index - 1); Some (prev < val) })
           else Some False);
        if slot then Some (first, en, index)
        else if val > read then insert_slot_loop val shuffled_array (index + 1) en index
        else insert_slot_loop val shuffled_array first index index }
      else Some (first, en, index))"

declare insert_slot_loop.simps [code]

definition InsertShuffledArrayValue :: "int \<Rightarrow> int list \<Rightarrow> int \<Rightarrow> (int list \<times> int) option" where
  "InsertShuffledArrayValue val shuffled_array count = do {
     found \<leftarrow> ShuffledBinarySearch val shuffled_array count;
     if found < 0 then do {
       shuffled_array \<leftarrow> SortShuffledArray shuffled_array count;
       (first, en, index) \<leftarrow> insert_slot_loop val shuffled_array 0 count 0;
       (index, shuffled_array) \<leftarrow>
         (if en = first then Some (count, shuffled_array)
          else do {
            a \<leftarrow> memmove shuffled_array (index + 1) index (count - index);
            Some (index, a) });
       shuffled_array \<leftarrow> wr shuffled_array index val;
       let count = count + 1;
       shuffled_array \<leftarrow> ShuffleSortedArray shuffled_array count;
       Some (shuffled_array, count) }
     else Some (shuffled_array, count) }"

section \<open>The shuffled layout as a function on lists\<close>

text \<open>The functions of this section are not part of the program: they say what its loops
  are proved to compute. \<open>shuf\<close> is the layout as a recursion on the block: the element
  in the middle first, then the layout of the elements before it, then the layout of the
  elements after it. \<open>unshuf\<close> reads such a layout back.\<close>

function shuf :: "'a list \<Rightarrow> 'a list" where
  "shuf xs =
     (if length xs \<le> 1 then xs
      else (let h = length xs div 2
            in xs ! h # shuf (take h xs) @ shuf (drop (Suc h) xs)))"
  by pat_completeness auto
termination
  by (relation "measure length") auto

function unshuf :: "'a list \<Rightarrow> 'a list" where
  "unshuf ys =
     (if length ys \<le> 1 then ys
      else (let h = length ys div 2
            in unshuf (take h (tl ys)) @ hd ys # unshuf (drop (Suc h) ys)))"
  by pat_completeness auto
termination
  by (relation "measure length") auto

declare shuf.simps [simp del] unshuf.simps [simp del]

text \<open>The sorted position of the element at shuffled position \<open>p\<close> of a block of \<open>n\<close>
  elements, by the descent that reaches \<open>p\<close>.\<close>

function rank_of :: "nat \<Rightarrow> nat \<Rightarrow> nat" where
  "rank_of n p =
     (if p = 0 then n div 2
      else if p > n div 2 then n div 2 + 1 + rank_of ((n - 1) div 2) (p - (n div 2 + 1))
      else rank_of (n div 2) (p - 1))"
  by pat_completeness auto
termination
  by (relation "measure snd") auto

declare rank_of.simps [simp del]

text \<open>The layout invariant of a block, read off the block alone: its first position holds
  the median of its sorted order, the next \<open>n div 2\<close> positions hold the elements below
  the median, themselves in the layout, and the remaining positions, \<open>upper n\<close> in number,
  hold the elements above the median, themselves in the layout. The number of remaining
  positions is a parameter: \<open>ceil_div2 (n - 1)\<close> is the ceiling of \<open>(n - 1) / 2\<close>,
  \<open>(n - 1) div 2\<close> the floor.\<close>

definition ceil_div2 :: "nat \<Rightarrow> nat" where
  "ceil_div2 k = (k + 1) div 2"

function layout_invariant :: "(nat \<Rightarrow> nat) \<Rightarrow> int list \<Rightarrow> bool" where
  "layout_invariant upper blk =
     (if blk = [] then True
      else (let n = length blk;
                srt = sort blk;
                h = n div 2;
                lo = take h (drop 1 blk);
                hi = drop (1 + h) blk
            in blk ! 0 = srt ! h \<and>
               sort lo = take h srt \<and> layout_invariant upper lo \<and>
               length hi = upper n \<and>
               sort hi = drop (1 + h) srt \<and> layout_invariant upper hi))"
  by pat_completeness auto
termination
  by (relation "measure (\<lambda>(u, b). length b)") auto

declare layout_invariant.simps [simp del] ShuffledBinarySearch_loop.simps [simp del]

section \<open>Properties of the layout functions\<close>

lemma shuf_small: "length xs \<le> 1 \<Longrightarrow> shuf xs = xs"
  by (subst shuf.simps) simp

lemma shuf_Nil [simp]: "shuf [] = []"
  by (simp add: shuf_small)

lemma shuf_split:
  "length hi \<le> length lo \<Longrightarrow> length lo \<le> Suc (length hi) \<Longrightarrow> shuf (lo @ m # hi) = m # shuf lo @ shuf hi"
proof -
  assume a: "length hi \<le> length lo" "length lo \<le> Suc (length hi)"
  then have h: "length (lo @ m # hi) div 2 = length lo" by simp
  have "\<not> length (lo @ m # hi) \<le> 1 \<or> (lo = [] \<and> hi = [])" by (cases lo) auto
  then show ?thesis
    by (subst shuf.simps, unfold h) (auto simp: Let_def)
qed

lemma unshuf_small: "length ys \<le> 1 \<Longrightarrow> unshuf ys = ys"
  by (subst unshuf.simps) simp

lemma unshuf_Nil [simp]: "unshuf [] = []"
  by (simp add: unshuf_small)

lemma unshuf_split:
  "length hi \<le> length lo \<Longrightarrow> length lo \<le> Suc (length hi) \<Longrightarrow> unshuf (m # lo @ hi) = unshuf lo @ m # unshuf hi"
proof -
  assume a: "length hi \<le> length lo" "length lo \<le> Suc (length hi)"
  then have h: "length (m # lo @ hi) div 2 = length lo" by simp
  have "\<not> length (m # lo @ hi) \<le> 1 \<or> (lo = [] \<and> hi = [])" by (cases lo) auto
  then show ?thesis
    by (subst unshuf.simps, unfold h) (auto simp: Let_def)
qed

text \<open>A block of more than one element is its lower half, its median and its upper half;
  a shuffled block is its first element, then two parts of the same lengths. The halves
  differ in length by at most one, the lower being the longer.\<close>

lemma median_split:
  assumes "1 < length xs"
  obtains lo m hi where "xs = lo @ m # hi" "length lo = length xs div 2"
    "length hi = (length xs - 1) div 2" "length hi \<le> length lo" "length lo \<le> Suc (length hi)"
proof -
  let ?h = "length xs div 2"
  have h: "?h < length xs" using assms by simp
  have 1: "xs = take ?h xs @ xs ! ?h # drop (Suc ?h) xs"
    using h by (simp add: id_take_nth_drop)
  have 2: "length (take ?h xs) = ?h" using h by simp
  have 3: "length (drop (Suc ?h) xs) = (length xs - 1) div 2" by simp
  have 4: "length (drop (Suc ?h) xs) \<le> length (take ?h xs)"
    unfolding 2 3 by presburger
  have 5: "length (take ?h xs) \<le> Suc (length (drop (Suc ?h) xs))"
    unfolding 2 3 using assms by presburger
  show ?thesis by (rule that[OF 1 2 3 4 5])
qed

lemma length_shuf [simp]: "length (shuf xs) = length xs"
proof (induction "length xs" arbitrary: xs rule: less_induct)
  case less
  show ?case
  proof (cases "length xs \<le> 1")
    case True
    then show ?thesis by (simp add: shuf_small)
  next
    case False
    then obtain lo m hi where s: "xs = lo @ m # hi" "length hi \<le> length lo" "length lo \<le> Suc (length hi)"
      using median_split[of xs] by (metis not_le)
    then show ?thesis using less[of lo] less[of hi] by (simp add: shuf_split)
  qed
qed

lemma shuffled_split:
  assumes "1 < length ys"
  obtains m lo hi where "ys = m # lo @ hi" "length lo = length ys div 2"
    "length hi = (length ys - 1) div 2" "length hi \<le> length lo" "length lo \<le> Suc (length hi)"
proof -
  let ?h = "length ys div 2"
  obtain m zs where ys: "ys = m # zs" using assms by (cases ys) auto
  have 1: "ys = m # take ?h zs @ drop ?h zs" using ys by simp
  have 2: "length (take ?h zs) = ?h" using ys by simp
  have 3: "length (drop ?h zs) = (length ys - 1) div 2" using ys by simp
  have 4: "length (drop ?h zs) \<le> length (take ?h zs)"
    unfolding 2 3 by presburger
  have 5: "length (take ?h zs) \<le> Suc (length (drop ?h zs))"
    unfolding 2 3 using assms by presburger
  show ?thesis by (rule that[OF 1 2 3 4 5])
qed

lemma length_unshuf [simp]: "length (unshuf ys) = length ys"
proof (induction "length ys" arbitrary: ys rule: less_induct)
  case less
  show ?case
  proof (cases "length ys \<le> 1")
    case True
    then show ?thesis by (simp add: unshuf_small)
  next
    case False
    then obtain m lo hi where s: "ys = m # lo @ hi" "length hi \<le> length lo" "length lo \<le> Suc (length hi)"
      using shuffled_split[of ys] by (metis not_le)
    then show ?thesis using less[of lo] less[of hi] by (simp add: unshuf_split)
  qed
qed

lemma unshuf_shuf: "unshuf (shuf xs) = xs"
proof (induction "length xs" arbitrary: xs rule: less_induct)
  case less
  show ?case
  proof (cases "length xs \<le> 1")
    case True
    then show ?thesis by (simp add: shuf_small unshuf_small)
  next
    case False
    then obtain lo m hi where s: "xs = lo @ m # hi" "length hi \<le> length lo" "length lo \<le> Suc (length hi)"
      using median_split[of xs] by (metis not_le)
    then show ?thesis using less[of lo] less[of hi] by (simp add: shuf_split unshuf_split)
  qed
qed

lemma shuf_unshuf: "shuf (unshuf ys) = ys"
proof (induction "length ys" arbitrary: ys rule: less_induct)
  case less
  show ?case
  proof (cases "length ys \<le> 1")
    case True
    then show ?thesis by (simp add: shuf_small unshuf_small)
  next
    case False
    then obtain m lo hi where s: "ys = m # lo @ hi" "length hi \<le> length lo" "length lo \<le> Suc (length hi)"
      using shuffled_split[of ys] by (metis not_le)
    then show ?thesis using less[of lo] less[of hi] by (simp add: shuf_split unshuf_split)
  qed
qed

lemma set_shuf [simp]: "set (shuf xs) = set xs"
proof (induction "length xs" arbitrary: xs rule: less_induct)
  case less
  show ?case
  proof (cases "length xs \<le> 1")
    case True
    then show ?thesis by (simp add: shuf_small)
  next
    case False
    then obtain lo m hi where s: "xs = lo @ m # hi" "length hi \<le> length lo" "length lo \<le> Suc (length hi)"
      using median_split[of xs] by (metis not_le)
    then show ?thesis using less[of lo] less[of hi] by (auto simp add: shuf_split)
  qed
qed

section \<open>Reads, writes and moves inside a block\<close>

text \<open>The array around a block is \<open>pre @ blk @ post\<close>, the block starting at index
  \<open>length pre\<close>. On a count that is not negative the truncating division is \<open>div\<close>.\<close>

lemma sdiv2_nat: "int n sdiv 2 = int (n div 2)"
  by (simp add: signed_divide_int_def sgn_if zdiv_int)

lemma sdiv2_nat_pred: "0 < n \<Longrightarrow> (int n - 1) sdiv 2 = int ((n - 1) div 2)"
  using sdiv2_nat[of "n - 1"] by simp

lemma rd_Cons_0 [simp]: "rd (x # xs) 0 = Some x"
  by (simp add: rd_def)

lemma rd_Cons_pos: "0 < k \<Longrightarrow> rd (x # xs) k = rd xs (k - 1)"
  by (auto simp: rd_def nth_Cons' nat_diff_distrib')

lemma rd_append: "0 \<le> k \<Longrightarrow> rd (pre @ ys) (int (length pre) + k) = rd ys k"
  by (auto simp: rd_def nth_append nat_add_distrib)

lemma rd_append_0: "rd (pre @ ys) (int (length pre)) = rd ys 0"
  using rd_append[of 0 pre ys] by simp

lemma wr_Cons_0 [simp]: "wr (x # xs) 0 v = Some (v # xs)"
  by (simp add: wr_def)

lemma wr_Cons_pos: "0 < k \<Longrightarrow> wr (x # xs) k v = map_option ((#) x) (wr xs (k - 1) v)"
  by (auto simp: wr_def nat_diff_distrib' list_update_code split: nat.splits)

lemma wr_append: "0 \<le> k \<Longrightarrow> wr (pre @ ys) (int (length pre) + k) v = map_option ((@) pre) (wr ys k v)"
  by (auto simp: wr_def list_update_append nat_add_distrib)

lemma wr_append_0: "wr (pre @ ys) (int (length pre)) v = map_option ((@) pre) (wr ys 0 v)"
  using wr_append[of 0 pre ys v] by simp

lemmas mem_simps = rd_Cons_pos rd_append rd_append_0 wr_Cons_pos wr_append wr_append_0

lemma shuf2: "shuf [a,b] = [b,a]"
  using shuf_split[of "[]" "[a]" b] by (simp add: shuf_small)
lemma shuf3: "shuf [a,b,c] = [b,a,c]"
  using shuf_split[of "[c]" "[a]" b] by (simp add: shuf_small)
lemma shuf4: "shuf [a,b,c,d] = [c,b,a,d]"
  using shuf_split[of "[d]" "[a,b]" c] by (simp add: shuf_small shuf2)
lemma shuf5: "shuf [a,b,c,d,e] = [c,b,a,e,d]"
  using shuf_split[of "[d,e]" "[a,b]" c] by (simp add: shuf_small shuf2)
lemma shuf6: "shuf [a,b,c,d,e,f] = [d,b,a,c,f,e]"
  using shuf_split[of "[e,f]" "[a,b,c]" d] by (simp add: shuf_small shuf2 shuf3)
lemma shuf7: "shuf [a,b,c,d,e,f,g] = [d,b,a,c,f,e,g]"
  using shuf_split[of "[e,f,g]" "[a,b,c]" d] by (simp add: shuf_small shuf2 shuf3)
lemma shuf8: "shuf [a,b,c,d,e,f,g,h] = [e,c,b,a,d,g,f,h]"
  using shuf_split[of "[f,g,h]" "[a,b,c,d]" e] by (simp add: shuf_small shuf3 shuf4)

lemma list_of_length:
  "length xs = 2 \<Longrightarrow> \<exists>a b. xs = [a,b]"
  "length xs = 3 \<Longrightarrow> \<exists>a b c. xs = [a,b,c]"
  "length xs = 4 \<Longrightarrow> \<exists>a b c d. xs = [a,b,c,d]"
  "length xs = 5 \<Longrightarrow> \<exists>a b c d e. xs = [a,b,c,d,e]"
  "length xs = 6 \<Longrightarrow> \<exists>a b c d e f. xs = [a,b,c,d,e,f]"
  "length xs = 7 \<Longrightarrow> \<exists>a b c d e f g. xs = [a,b,c,d,e,f,g]"
  "length xs = 8 \<Longrightarrow> \<exists>a b c d e f g h. xs = [a,b,c,d,e,f,g,h]"
  by (auto simp: eval_nat_numeral length_Suc_conv)

lemma ShuffleSortedArray_switch_small:
  assumes "2 \<le> length blk" "length blk \<le> 8"
  shows "ShuffleSortedArray_switch (pre @ blk @ post) (int (length pre)) (int (length blk)) stk
         = Some (pre @ shuf blk @ post, int (length pre), 0, stk)"
proof -
  consider "length blk = 2" | "length blk = 3" | "length blk = 4" | "length blk = 5"
    | "length blk = 6" | "length blk = 7" | "length blk = 8"
    using assms by linarith
  then show ?thesis
  proof cases
    case 1
    then obtain a b where "blk = [a,b]" using list_of_length(1) by blast
    then show ?thesis
      by (simp add: ShuffleSortedArray_switch_def swap_def shift3_def mem_simps shuf2)
  next
    case 2
    then obtain a b c where "blk = [a,b,c]" using list_of_length(2) by blast
    then show ?thesis
      by (simp add: ShuffleSortedArray_switch_def swap_def shift3_def mem_simps shuf3)
  next
    case 3
    then obtain a b c d where "blk = [a,b,c,d]" using list_of_length(3) by blast
    then show ?thesis
      by (simp add: ShuffleSortedArray_switch_def swap_def shift3_def mem_simps shuf4)
  next
    case 4
    then obtain a b c d e where "blk = [a,b,c,d,e]" using list_of_length(4) by blast
    then show ?thesis
      by (simp add: ShuffleSortedArray_switch_def swap_def shift3_def mem_simps shuf5)
  next
    case 5
    then obtain a b c d e f where "blk = [a,b,c,d,e,f]" using list_of_length(5) by blast
    then show ?thesis
      by (simp add: ShuffleSortedArray_switch_def swap_def shift3_def mem_simps shuf6)
  next
    case 6
    then obtain a b c d e f g where "blk = [a,b,c,d,e,f,g]" using list_of_length(6) by blast
    then show ?thesis
      by (simp add: ShuffleSortedArray_switch_def swap_def shift3_def mem_simps shuf7)
  next
    case 7
    then obtain a b c d e f g h where "blk = [a,b,c,d,e,f,g,h]" using list_of_length(7) by blast
    then show ?thesis
      by (simp add: ShuffleSortedArray_switch_def swap_def shift3_def mem_simps shuf8)
  qed
qed

lemma block_counts:
  assumes "length hi \<le> length lo" "length lo \<le> Suc (length hi)"
  shows "int (length (lo @ m # hi)) sdiv 2 = int (length lo)"
    and "(int (length (lo @ m # hi)) - 1) sdiv 2 = int (length hi)"
proof -
  have "length (lo @ m # hi) div 2 = length lo" using assms by simp
  then show "int (length (lo @ m # hi)) sdiv 2 = int (length lo)"
    by (simp only: sdiv2_nat)
  have "(length (lo @ m # hi) - 1) div 2 = length hi" using assms by simp
  then show "(int (length (lo @ m # hi)) - 1) sdiv 2 = int (length hi)"
    by (subst sdiv2_nat_pred) simp_all
qed

lemma rd_middle: "rd (pre @ lo @ m # rest) (int (length pre) + int (length lo)) = Some m"
  by (simp add: rd_def nth_append nat_add_distrib)

lemma wr_middle: "wr (pre @ lo @ x # rest) (int (length pre) + int (length lo)) m = Some (pre @ lo @ m # rest)"
  by (simp add: wr_def list_update_append nat_add_distrib)

lemma memmove_up:
  "memmove (pre @ (x # lo) @ m # rest) (int (length pre) + 1) (int (length pre)) (int (length (x # lo)))
   = Some (pre @ x # (x # lo) @ rest)"
  by (simp add: memmove_def nat_add_distrib)

lemma memmove_down:
  "memmove (pre @ m # lo @ rest) (int (length pre)) (int (length pre) + 1) (int (length lo))
   = Some (pre @ lo @ last (m # lo) # rest)"
proof -
  have "drop (length lo) (m # lo) = [last (m # lo)]"
    by (induction lo arbitrary: m) auto
  then have "drop (length lo) (m # lo @ rest) = last (m # lo) # rest"
    using drop_append[of "length lo" "m # lo" rest] by simp
  then show ?thesis
    by (simp add: memmove_def nat_add_distrib)
qed

section \<open>ShuffleSortedArray computes the layout\<close>

lemma ShuffleSortedArray_switch_default:
  assumes "blk = lo @ m # hi" "8 < length blk" "length hi \<le> length lo" "length lo \<le> Suc (length hi)"
    and "length stk < 64"
  shows "ShuffleSortedArray_switch (pre @ blk @ post) (int (length pre)) (int (length blk)) stk
         = Some (pre @ (m # lo @ hi) @ post, int (length pre) + 1, int (length lo),
                 (int (length pre) + 1 + int (length lo), int (length hi)) # stk)"
proof -
  obtain x lo' where lo: "lo = x # lo'" using assms by (cases lo) auto
  have c: "\<not> (int (length blk) = 2 \<or> int (length blk) = 3)"
    "int (length blk) \<noteq> 4" "int (length blk) \<noteq> 5"
    "\<not> (int (length blk) = 6 \<or> int (length blk) = 7)"
    "int (length blk) \<noteq> 8"
    using assms(2) by linarith+
  have n: "int (length blk) sdiv 2 = int (length lo)" "(int (length blk) - 1) sdiv 2 = int (length hi)"
    using block_counts[OF assms(3,4), of m] assms(1) by simp_all
  have r: "rd (pre @ blk @ post) (int (length pre) + int (length lo)) = Some m"
    using rd_middle[of pre lo m "hi @ post"] assms(1) by simp
  have mv: "memmove (pre @ blk @ post) (int (length pre) + 1) (int (length pre)) (int (length lo))
     = Some (pre @ x # lo @ hi @ post)"
    using memmove_up[of pre x lo' m "hi @ post"] lo assms(1) by simp
  have w: "wr (pre @ x # lo @ hi @ post) (int (length pre)) m = Some (pre @ m # lo @ hi @ post)"
    using wr_middle[of pre "[]" x "lo @ hi @ post" m] by simp
  show ?thesis
    unfolding ShuffleSortedArray_switch_def
    by (simp only: c if_False n r mv w push_def MAX_SHUFFLE_COUNT_LOG2_def assms(5) if_True Let_def)
       (simp add: w)
qed

text \<open>The loop entered on a block leaves the array with the block in layout and goes on
  as if entered with nothing to do: a block of at most 8 elements by one pass through the
  \<^verbatim>\<open>switch\<close>, a longer one by the step that moves the median to the front, the loop on
  the lower half, the pop of the upper half and the loop on it. The block is shorter than
  \<open>2 ^ (64 - stk)\<close>, which keeps every push inside the work list.\<close>

lemma ShuffleSortedArray_loop_done:
  "count \<le> 1 \<Longrightarrow> ShuffleSortedArray_loop a first count [] = Some a"
  by (subst ShuffleSortedArray_loop.simps) simp

lemma ShuffleSortedArray_loop_pop:
  "count \<le> 1 \<Longrightarrow> 1 < c \<Longrightarrow>
   ShuffleSortedArray_loop a first count ((f, c) # stk) = ShuffleSortedArray_loop a f c stk"
  by (subst ShuffleSortedArray_loop.simps[of a first count], subst ShuffleSortedArray_loop.simps[of a f c])
     (simp add: pop_def)

lemma ShuffleSortedArray_loop_idle:
  "count \<le> 1 \<Longrightarrow> ShuffleSortedArray_loop a first count stk = ShuffleSortedArray_loop a 0 0 stk"
  by (subst ShuffleSortedArray_loop.simps[of a first count], subst ShuffleSortedArray_loop.simps[of a 0 0])
     simp

lemma ShuffleSortedArray_loop_block:
  "length blk < 2 ^ (64 - length stk) \<Longrightarrow>
   ShuffleSortedArray_loop (pre @ blk @ post) (int (length pre)) (int (length blk)) stk
   = ShuffleSortedArray_loop (pre @ shuf blk @ post) 0 0 stk"
proof (induction "length blk" arbitrary: blk pre post stk rule: less_induct)
  case less
  consider "length blk \<le> 1" | "2 \<le> length blk" "length blk \<le> 8" | "8 < length blk"
    by linarith
  then show ?case
  proof cases
    case 1
    then show ?thesis
      using ShuffleSortedArray_loop_idle[of "int (length blk)" "pre @ blk @ post" "int (length pre)" stk]
      by (simp add: shuf_small)
  next
    case 2
    have "ShuffleSortedArray_loop (pre @ blk @ post) (int (length pre)) (int (length blk)) stk
          = ShuffleSortedArray_loop (pre @ shuf blk @ post) (int (length pre)) 0 stk"
      using 2 by (subst ShuffleSortedArray_loop.simps) (simp add: ShuffleSortedArray_switch_small)
    then show ?thesis
      using ShuffleSortedArray_loop_idle[of 0 "pre @ shuf blk @ post" "int (length pre)" stk] by simp
  next
    case 3
    then have "1 < length blk" by simp
    then obtain lo m hi where s: "blk = lo @ m # hi" "length hi \<le> length lo" "length lo \<le> Suc (length hi)"
      using median_split[of blk] by metis
    have d: "length stk < 64"
    proof (rule ccontr)
      assume "\<not> length stk < 64"
      then have "64 - length stk = 0" by simp
      with less.prems 3 show False by simp
    qed
    have big: "8 < length (lo @ m # hi)" using 3 s by simp
    have gt: "1 < int (length blk)" using 3 by simp
    have lo_lt: "length lo < length blk" and hi_lt: "length hi < length blk" using s by simp_all
    have hi2: "1 < length hi" using big s(2,3) by simp
    let ?e = "(int (length pre) + 1 + int (length lo), int (length hi))"
    have "2 * length lo \<le> length blk" using s by simp
    moreover have "(2::nat) ^ (64 - length stk) = 2 * 2 ^ (64 - length (?e # stk))"
      using d by (simp add: Suc_diff_Suc flip: power_Suc)
    ultimately have lo_bound: "length lo < 2 ^ (64 - length (?e # stk))"
      using less.prems by linarith
    have hi_bound: "length hi < 2 ^ (64 - length stk)"
      using less.prems hi_lt by linarith
    have "ShuffleSortedArray_loop (pre @ blk @ post) (int (length pre)) (int (length blk)) stk
          = ShuffleSortedArray_loop (pre @ (m # lo @ hi) @ post) (int (length pre) + 1) (int (length lo)) (?e # stk)"
      using 3 by (subst ShuffleSortedArray_loop.simps)
         (simp add: ShuffleSortedArray_switch_default[OF s(1) 3 s(2,3) d])
    also have "\<dots> = ShuffleSortedArray_loop ((pre @ [m]) @ lo @ (hi @ post)) (int (length (pre @ [m]))) (int (length lo)) (?e # stk)"
      by (simp add: add.commute)
    also have "\<dots> = ShuffleSortedArray_loop ((pre @ [m]) @ shuf lo @ (hi @ post)) 0 0 (?e # stk)"
      by (rule less.hyps[OF lo_lt lo_bound])
    also have "\<dots> = ShuffleSortedArray_loop ((pre @ [m]) @ shuf lo @ (hi @ post)) (fst ?e) (snd ?e) stk"
      using hi2 by (simp add: ShuffleSortedArray_loop_pop)
    also have "\<dots> = ShuffleSortedArray_loop ((pre @ m # shuf lo) @ hi @ post) (int (length (pre @ m # shuf lo))) (int (length hi)) stk"
      by (simp add: ac_simps)
    also have "\<dots> = ShuffleSortedArray_loop ((pre @ m # shuf lo) @ shuf hi @ post) 0 0 stk"
      by (rule less.hyps[OF hi_lt hi_bound])
    also have "\<dots> = ShuffleSortedArray_loop (pre @ shuf blk @ post) 0 0 stk"
      using s by (simp add: shuf_split)
    finally show ?thesis .
  qed
qed

lemma ShuffleSortedArray_eq:
  assumes "0 \<le> count" "count \<le> int (length a)" "count < 2 ^ 64"
  shows "ShuffleSortedArray a count = Some (shuf (take (nat count) a) @ drop (nat count) a)"
proof -
  define blk where "blk = take (nat count) a"
  have len: "int (length blk) = count" using assms by (simp add: blk_def)
  then have "length blk < 2 ^ (64 - length ([] :: (int \<times> int) list))"
    using assms(3) by (simp flip: len)
  from ShuffleSortedArray_loop_block[OF this, of "[]" "drop (nat count) a"]
  have "ShuffleSortedArray_loop a 0 count [] = Some (shuf blk @ drop (nat count) a)"
    unfolding len by (simp add: blk_def ShuffleSortedArray_loop_done)
  then show ?thesis
    by (simp add: ShuffleSortedArray_def blk_def)
qed

lemma ShuffleSortedArray_trivial: "count \<le> 1 \<Longrightarrow> ShuffleSortedArray a count = Some a"
  by (simp add: ShuffleSortedArray_def ShuffleSortedArray_loop_done)

section \<open>SortShuffledArray reads the layout back\<close>

lemma unshuf2: "unshuf [b,a] = [a,b]"
  using unshuf_split[of "[]" "[a]" b] by (simp add: unshuf_small)
lemma unshuf3: "unshuf [b,a,c] = [a,b,c]"
  using unshuf_split[of "[c]" "[a]" b] by (simp add: unshuf_small)
lemma unshuf4: "unshuf [c,b,a,d] = [a,b,c,d]"
  using unshuf_split[of "[d]" "[b,a]" c] by (simp add: unshuf_small unshuf2)
lemma unshuf5: "unshuf [c,b,a,e,d] = [a,b,c,d,e]"
  using unshuf_split[of "[e,d]" "[b,a]" c] by (simp add: unshuf_small unshuf2)
lemma unshuf6: "unshuf [d,b,a,c,f,e] = [a,b,c,d,e,f]"
  using unshuf_split[of "[f,e]" "[b,a,c]" d] by (simp add: unshuf_small unshuf2 unshuf3)
lemma unshuf7: "unshuf [d,b,a,c,f,e,g] = [a,b,c,d,e,f,g]"
  using unshuf_split[of "[f,e,g]" "[b,a,c]" d] by (simp add: unshuf_small unshuf2 unshuf3)

lemma SortShuffledArray_switch_small:
  assumes "2 \<le> length blk" "length blk \<le> 7"
  shows "SortShuffledArray_switch (pre @ blk @ post) (int (length pre)) (int (length blk)) stk
         = Some (pre @ unshuf blk @ post, int (length pre), 0, stk)"
proof -
  consider "length blk = 2" | "length blk = 3" | "length blk = 4" | "length blk = 5"
    | "length blk = 6" | "length blk = 7"
    using assms by linarith
  then show ?thesis
  proof cases
    case 1
    then obtain a b where "blk = [a,b]" using list_of_length(1) by blast
    then show ?thesis
      by (simp add: SortShuffledArray_switch_def swap_def shift3_def mem_simps unshuf2)
  next
    case 2
    then obtain a b c where "blk = [a,b,c]" using list_of_length(2) by blast
    then show ?thesis
      by (simp add: SortShuffledArray_switch_def swap_def shift3_def mem_simps unshuf3)
  next
    case 3
    then obtain a b c d where "blk = [a,b,c,d]" using list_of_length(3) by blast
    then show ?thesis
      by (simp add: SortShuffledArray_switch_def swap_def shift3_def mem_simps unshuf4)
  next
    case 4
    then obtain a b c d e where "blk = [a,b,c,d,e]" using list_of_length(4) by blast
    then show ?thesis
      by (simp add: SortShuffledArray_switch_def swap_def shift3_def mem_simps unshuf5)
  next
    case 5
    then obtain a b c d e f where "blk = [a,b,c,d,e,f]" using list_of_length(5) by blast
    then show ?thesis
      by (simp add: SortShuffledArray_switch_def swap_def shift3_def mem_simps unshuf6)
  next
    case 6
    then obtain a b c d e f g where "blk = [a,b,c,d,e,f,g]" using list_of_length(6) by blast
    then show ?thesis
      by (simp add: SortShuffledArray_switch_def swap_def shift3_def mem_simps unshuf7)
  qed
qed

lemma SortShuffledArray_switch_default:
  assumes "blk = m # lo @ hi" "8 \<le> length blk" "length hi \<le> length lo" "length lo \<le> Suc (length hi)"
    and "length stk < 64"
  shows "SortShuffledArray_switch (pre @ blk @ post) (int (length pre)) (int (length blk)) stk
         = Some (pre @ (lo @ m # hi) @ post, int (length pre), int (length lo),
                 (int (length pre) + 1 + int (length lo), int (length hi)) # stk)"
proof -
  have c: "\<not> (int (length blk) = 2 \<or> int (length blk) = 3)"
    "int (length blk) \<noteq> 4" "int (length blk) \<noteq> 5"
    "\<not> (int (length blk) = 6 \<or> int (length blk) = 7)"
    using assms(2) by linarith+
  have "length blk = length (lo @ m # hi)" using assms(1) by simp
  then have n: "int (length blk) sdiv 2 = int (length lo)" "(int (length blk) - 1) sdiv 2 = int (length hi)"
    using block_counts[OF assms(3,4), of m] by simp_all
  have r: "rd (pre @ blk @ post) (int (length pre)) = Some m"
    using assms(1) by (simp add: rd_append_0)
  define x where "x = last (m # lo)"
  have mv: "memmove (pre @ blk @ post) (int (length pre)) (int (length pre) + 1) (int (length lo))
     = Some (pre @ lo @ x # hi @ post)"
    using memmove_down[of pre m lo "hi @ post"] assms(1) unfolding x_def by simp
  have w: "wr (pre @ lo @ x # hi @ post) (int (length pre) + int (length lo)) m
           = Some (pre @ lo @ m # hi @ post)"
    by (rule wr_middle)
  show ?thesis
    unfolding SortShuffledArray_switch_def
    by (simp only: c if_False n r mv w push_def MAX_SHUFFLE_COUNT_LOG2_def assms(5) if_True Let_def)
       (simp add: w)
qed

text \<open>The same for \<^verbatim>\<open>SortShuffledArray\<close>, whose general step starts at 8 elements.\<close>

lemma SortShuffledArray_loop_done:
  "count \<le> 1 \<Longrightarrow> SortShuffledArray_loop a first count [] = Some a"
  by (subst SortShuffledArray_loop.simps) simp

lemma SortShuffledArray_loop_pop:
  "count \<le> 1 \<Longrightarrow> 1 < c \<Longrightarrow>
   SortShuffledArray_loop a first count ((f, c) # stk) = SortShuffledArray_loop a f c stk"
  by (subst SortShuffledArray_loop.simps[of a first count], subst SortShuffledArray_loop.simps[of a f c])
     (simp add: pop_def)

lemma SortShuffledArray_loop_idle:
  "count \<le> 1 \<Longrightarrow> SortShuffledArray_loop a first count stk = SortShuffledArray_loop a 0 0 stk"
  by (subst SortShuffledArray_loop.simps[of a first count], subst SortShuffledArray_loop.simps[of a 0 0])
     simp

lemma SortShuffledArray_loop_block:
  "length blk < 2 ^ (64 - length stk) \<Longrightarrow>
   SortShuffledArray_loop (pre @ blk @ post) (int (length pre)) (int (length blk)) stk
   = SortShuffledArray_loop (pre @ unshuf blk @ post) 0 0 stk"
proof (induction "length blk" arbitrary: blk pre post stk rule: less_induct)
  case less
  consider "length blk \<le> 1" | "2 \<le> length blk" "length blk \<le> 7" | "8 \<le> length blk"
    by linarith
  then show ?case
  proof cases
    case 1
    then show ?thesis
      using SortShuffledArray_loop_idle[of "int (length blk)" "pre @ blk @ post" "int (length pre)" stk]
      by (simp add: unshuf_small)
  next
    case 2
    have "SortShuffledArray_loop (pre @ blk @ post) (int (length pre)) (int (length blk)) stk
          = SortShuffledArray_loop (pre @ unshuf blk @ post) (int (length pre)) 0 stk"
      using 2 by (subst SortShuffledArray_loop.simps) (simp add: SortShuffledArray_switch_small)
    then show ?thesis
      using SortShuffledArray_loop_idle[of 0 "pre @ unshuf blk @ post" "int (length pre)" stk] by simp
  next
    case 3
    then have "1 < length blk" by simp
    then obtain m lo hi where s: "blk = m # lo @ hi" "length hi \<le> length lo" "length lo \<le> Suc (length hi)"
      using shuffled_split[of blk] by metis
    have d: "length stk < 64"
    proof (rule ccontr)
      assume "\<not> length stk < 64"
      then have "64 - length stk = 0" by simp
      with less.prems 3 show False by simp
    qed
    have lo_lt: "length lo < length blk" and hi_lt: "length hi < length blk" using s by simp_all
    have hi2: "1 < length hi" using 3 s by simp
    let ?e = "(int (length pre) + 1 + int (length lo), int (length hi))"
    have "2 * length lo \<le> length blk" using s by simp
    moreover have "(2::nat) ^ (64 - length stk) = 2 * 2 ^ (64 - length (?e # stk))"
      using d by (simp add: Suc_diff_Suc flip: power_Suc)
    ultimately have lo_bound: "length lo < 2 ^ (64 - length (?e # stk))"
      using less.prems by linarith
    have hi_bound: "length hi < 2 ^ (64 - length stk)"
      using less.prems hi_lt by linarith
    have "SortShuffledArray_loop (pre @ blk @ post) (int (length pre)) (int (length blk)) stk
          = SortShuffledArray_loop (pre @ (lo @ m # hi) @ post) (int (length pre)) (int (length lo)) (?e # stk)"
      using 3 by (subst SortShuffledArray_loop.simps)
         (simp add: SortShuffledArray_switch_default[OF s(1) 3 s(2,3) d])
    also have "\<dots> = SortShuffledArray_loop (pre @ lo @ (m # hi @ post)) (int (length pre)) (int (length lo)) (?e # stk)"
      by simp
    also have "\<dots> = SortShuffledArray_loop (pre @ unshuf lo @ (m # hi @ post)) 0 0 (?e # stk)"
      by (rule less.hyps[OF lo_lt lo_bound])
    also have "\<dots> = SortShuffledArray_loop (pre @ unshuf lo @ (m # hi @ post)) (fst ?e) (snd ?e) stk"
      using hi2 by (simp add: SortShuffledArray_loop_pop)
    also have "\<dots> = SortShuffledArray_loop ((pre @ unshuf lo @ [m]) @ hi @ post) (int (length (pre @ unshuf lo @ [m]))) (int (length hi)) stk"
      by (simp add: ac_simps)
    also have "\<dots> = SortShuffledArray_loop ((pre @ unshuf lo @ [m]) @ unshuf hi @ post) 0 0 stk"
      by (rule less.hyps[OF hi_lt hi_bound])
    also have "\<dots> = SortShuffledArray_loop (pre @ unshuf blk @ post) 0 0 stk"
      using s by (simp add: unshuf_split)
    finally show ?thesis .
  qed
qed

lemma SortShuffledArray_eq:
  assumes "0 \<le> count" "count \<le> int (length a)" "count < 2 ^ 64"
  shows "SortShuffledArray a count = Some (unshuf (take (nat count) a) @ drop (nat count) a)"
proof -
  define blk where "blk = take (nat count) a"
  have len: "int (length blk) = count" using assms by (simp add: blk_def)
  then have "length blk < 2 ^ (64 - length ([] :: (int \<times> int) list))"
    using assms(3) by (simp flip: len)
  from SortShuffledArray_loop_block[OF this, of "[]" "drop (nat count) a"]
  have "SortShuffledArray_loop a 0 count [] = Some (unshuf blk @ drop (nat count) a)"
    unfolding len by (simp add: blk_def SortShuffledArray_loop_done)
  then show ?thesis
    by (simp add: SortShuffledArray_def blk_def)
qed

section \<open>The reads of ShuffledBinarySearch\<close>

lemma sdiv2_nonneg: "0 \<le> (c::int) \<Longrightarrow> 0 \<le> c sdiv 2"
  by (simp add: signed_divide_int_def sgn_if)

lemma sdiv2_pos: "0 \<le> (c::int) \<Longrightarrow> c sdiv 2 = c div 2"
  by (simp add: signed_divide_int_def sgn_if)

lemma ShuffledBinarySearch_loop_reads:
  "0 \<le> count \<Longrightarrow>
   sorted_wrt (<) (fst (ShuffledBinarySearch_loop val a index count)) \<and>
   (\<forall>r \<in> set (fst (ShuffledBinarySearch_loop val a index count)). index \<le> r)"
proof (induction val a index count rule: ShuffledBinarySearch_loop.induct)
  case (1 val a index count)
  show ?case
  proof (cases "count = 0")
    case True
    then have "ShuffledBinarySearch_loop val a index count = ([], Some (- 1))"
      by (subst ShuffledBinarySearch_loop.simps) simp
    then show ?thesis by simp
  next
    case False
    with 1(3) have p: "0 \<le> count sdiv 2" "0 \<le> (count - 1) sdiv 2"
      by (simp_all add: sdiv2_nonneg)
    show ?thesis
    proof (cases "rd a index")
      case None
      then have "ShuffledBinarySearch_loop val a index count = ([index], None)"
        using False by (subst ShuffledBinarySearch_loop.simps) simp
      then show ?thesis by simp
    next
      case (Some read)
      consider "val = read" | "val > read" | "val < read" by linarith
      then show ?thesis
      proof cases
        case 1
        then have "ShuffledBinarySearch_loop val a index count = ([index], Some index)"
          using False Some by (subst ShuffledBinarySearch_loop.simps) simp
        then show ?thesis by simp
      next
        case 2
        let ?r = "ShuffledBinarySearch_loop val a (index + (count sdiv 2 + 1)) ((count - 1) sdiv 2)"
        have e: "ShuffledBinarySearch_loop val a index count = (index # fst ?r, snd ?r)"
          using False Some 2 by (subst ShuffledBinarySearch_loop.simps) (simp add: Let_def)
        from "1.IH"(1)[OF False Some _ 2 p(2)] 2
        have "sorted_wrt (<) (fst ?r)" "\<forall>r\<in>set (fst ?r). index + (count sdiv 2 + 1) \<le> r"
          by simp_all
        then show ?thesis unfolding e using p by fastforce
      next
        case 3
        let ?r = "ShuffledBinarySearch_loop val a (index + 1) (count sdiv 2)"
        have e: "ShuffledBinarySearch_loop val a index count = (index # fst ?r, snd ?r)"
          using False Some 3 by (subst ShuffledBinarySearch_loop.simps) (simp add: Let_def)
        from "1.IH"(2)[OF False Some _ _ p(1)] 3
        have "sorted_wrt (<) (fst ?r)" "\<forall>r\<in>set (fst ?r). index + 1 \<le> r"
          by simp_all
        then show ?thesis unfolding e by fastforce
      qed
    qed
  qed
qed

lemma ShuffledBinarySearch_loop_bounds:
  "0 \<le> count \<Longrightarrow> 0 \<le> index \<Longrightarrow> index + count \<le> int (length a) \<Longrightarrow>
   (\<forall>r \<in> set (fst (ShuffledBinarySearch_loop val a index count)). index \<le> r \<and> r < index + count) \<and>
   snd (ShuffledBinarySearch_loop val a index count) \<noteq> None"
proof (induction val a index count rule: ShuffledBinarySearch_loop.induct)
  case (1 val a index count)
  show ?case
  proof (cases "count = 0")
    case True
    then have "ShuffledBinarySearch_loop val a index count = ([], Some (- 1))"
      by (subst ShuffledBinarySearch_loop.simps) simp
    then show ?thesis by simp
  next
    case False
    with 1(3) have p: "0 \<le> count sdiv 2" "0 \<le> (count - 1) sdiv 2"
      by (simp_all add: sdiv2_nonneg)
    have q: "count sdiv 2 + 1 + (count - 1) sdiv 2 = count" "count sdiv 2 < count"
      using False 1(3) by (simp_all add: sdiv2_pos)
    have "0 \<le> index \<and> index < int (length a)" using 1 False by simp
    then obtain read where Some: "rd a index = Some read" by (simp add: rd_def)
    consider "val = read" | "val > read" | "val < read" by linarith
    then show ?thesis
    proof cases
      case 1
      then have "ShuffledBinarySearch_loop val a index count = ([index], Some index)"
        using False Some by (subst ShuffledBinarySearch_loop.simps) simp
      then show ?thesis using False "1.prems" by simp
    next
      case 2
      let ?r = "ShuffledBinarySearch_loop val a (index + (count sdiv 2 + 1)) ((count - 1) sdiv 2)"
      have e: "ShuffledBinarySearch_loop val a index count = (index # fst ?r, snd ?r)"
        using False Some 2 by (subst ShuffledBinarySearch_loop.simps) (simp add: Let_def)
      have "(\<forall>r\<in>set (fst ?r). index + (count sdiv 2 + 1) \<le> r \<and> r < index + (count sdiv 2 + 1) + (count - 1) sdiv 2) \<and> snd ?r \<noteq> None"
        using 2 "1.prems" p q by (intro "1.IH"(1)[OF False Some _ _ p(2)]) simp_all
      then show ?thesis unfolding e using p q "1.prems" False by fastforce
    next
      case 3
      let ?r = "ShuffledBinarySearch_loop val a (index + 1) (count sdiv 2)"
      have e: "ShuffledBinarySearch_loop val a index count = (index # fst ?r, snd ?r)"
        using False Some 3 by (subst ShuffledBinarySearch_loop.simps) (simp add: Let_def)
      have "(\<forall>r\<in>set (fst ?r). index + 1 \<le> r \<and> r < index + 1 + count sdiv 2) \<and> snd ?r \<noteq> None"
        using 3 "1.prems" p q by (intro "1.IH"(2)[OF False Some _ _ p(1)]) simp_all
      then show ?thesis unfolding e using p q "1.prems" False by fastforce
    qed
  qed
qed

section \<open>ShuffledBinarySearch on a shuffled block\<close>

lemma nonempty_split:
  assumes "xs \<noteq> []"
  obtains lo m hi where "xs = lo @ m # hi" "length hi \<le> length lo" "length lo \<le> Suc (length hi)"
proof (cases "1 < length xs")
  case True
  then show ?thesis using median_split[of xs] that by metis
next
  case False
  then obtain m where "xs = [] @ m # []" using assms by (cases xs) auto
  then show ?thesis using that[of "[]" m "[]"] by simp
qed

lemma sorted_split:
  assumes "sorted (lo @ m # hi)"
  shows "sorted lo" "sorted hi" "\<forall>x\<in>set lo. x \<le> m" "\<forall>x\<in>set hi. m \<le> x"
  using assms by (auto simp: sorted_append)

text \<open>On the layout of a sorted block the search descends to the key: a greater key is
  not among the lower elements, a smaller one not among the upper elements.\<close>

lemma search_block:
  assumes "sorted blk"
  shows "\<exists>r. snd (ShuffledBinarySearch_loop val (pre @ shuf blk @ post) (int (length pre)) (int (length blk))) = Some r \<and>
           (if val \<in> set blk
            then int (length pre) \<le> r \<and> r < int (length pre) + int (length blk) \<and>
                 (pre @ shuf blk @ post) ! nat r = val
            else r = - 1)"
  using assms
proof (induction "length blk" arbitrary: blk pre post rule: less_induct)
  case less
  show ?case
  proof (cases "blk = []")
    case True
    then show ?thesis by (subst ShuffledBinarySearch_loop.simps) simp
  next
    case False
    then obtain lo m hi where s: "blk = lo @ m # hi" "length hi \<le> length lo" "length lo \<le> Suc (length hi)"
      using nonempty_split by blast
    have sh: "shuf blk = m # shuf lo @ shuf hi" using s by (simp add: shuf_split)
    have n: "int (length blk) sdiv 2 = int (length lo)" "(int (length blk) - 1) sdiv 2 = int (length hi)"
      using block_counts[OF s(2,3), of m] s(1) by simp_all
    have srt: "sorted lo" "sorted hi" "\<forall>x\<in>set lo. x \<le> m" "\<forall>x\<in>set hi. m \<le> x"
      using sorted_split less.prems s(1) by blast+
    have c0: "int (length blk) \<noteq> 0" using False by simp
    have r: "rd (pre @ shuf blk @ post) (int (length pre)) = Some m"
      by (simp add: sh rd_append_0)
    let ?a = "pre @ shuf blk @ post"
    consider "val = m" | "val > m" | "val < m" by linarith
    then show ?thesis
    proof cases
      case 1
      have "ShuffledBinarySearch_loop val ?a (int (length pre)) (int (length blk)) = ([int (length pre)], Some (int (length pre)))"
        using c0 r 1 by (subst ShuffledBinarySearch_loop.simps) simp
      moreover have "?a ! length pre = m" by (simp add: sh)
      ultimately show ?thesis using 1 s(1) False by simp
    next
      case 2
      let ?r = "ShuffledBinarySearch_loop val ?a (int (length pre) + (int (length lo) + 1)) (int (length hi))"
      have e: "snd (ShuffledBinarySearch_loop val ?a (int (length pre)) (int (length blk))) = snd ?r"
        using c0 r 2 by (subst ShuffledBinarySearch_loop.simps) (simp add: Let_def n)
      have a: "?a = (pre @ m # shuf lo) @ shuf hi @ post" by (simp add: sh)
      have i: "int (length pre) + (int (length lo) + 1) = int (length (pre @ m # shuf lo))" by simp
      have "length hi < length blk" using s by simp
      from less.hyps[OF this srt(2), of "pre @ m # shuf lo" post]
      obtain q where q: "snd ?r = Some q"
        "if val \<in> set hi then int (length (pre @ m # shuf lo)) \<le> q \<and> q < int (length (pre @ m # shuf lo)) + int (length hi) \<and> ?a ! nat q = val else q = - 1"
        unfolding i a by blast
      have "val \<in> set blk \<longleftrightarrow> val \<in> set hi" using 2 srt(3) s(1) by auto
      then show ?thesis unfolding e using q s(1) by (auto split: if_splits)
    next
      case 3
      let ?r = "ShuffledBinarySearch_loop val ?a (int (length pre) + 1) (int (length lo))"
      have e: "snd (ShuffledBinarySearch_loop val ?a (int (length pre)) (int (length blk))) = snd ?r"
        using c0 r 3 by (subst ShuffledBinarySearch_loop.simps) (simp add: Let_def n)
      have a: "?a = (pre @ [m]) @ shuf lo @ (shuf hi @ post)" by (simp add: sh)
      have i: "int (length pre) + 1 = int (length (pre @ [m]))" by simp
      have "length lo < length blk" using s by simp
      from less.hyps[OF this srt(1), of "pre @ [m]" "shuf hi @ post"]
      obtain q where q: "snd ?r = Some q"
        "if val \<in> set lo then int (length (pre @ [m])) \<le> q \<and> q < int (length (pre @ [m])) + int (length lo) \<and> ?a ! nat q = val else q = - 1"
        unfolding i a by blast
      have "val \<in> set blk \<longleftrightarrow> val \<in> set lo" using 3 srt(4) s(1) by auto
      then show ?thesis unfolding e using q s(1) by (auto split: if_splits)
    qed
  qed
qed

section \<open>DeshuffleIndex follows the descent\<close>

text \<open>\<^verbatim>\<open>DeshuffleIndex\<close> returns \<open>rank_of\<close>, and the layout holds at position \<open>p\<close> the
  element of sorted position \<open>rank_of n p\<close>.\<close>

lemma rank_of_0: "rank_of n 0 = n div 2"
  by (subst rank_of.simps) simp

lemma rank_of_upper: "n div 2 < p \<Longrightarrow> rank_of n p = n div 2 + 1 + rank_of ((n - 1) div 2) (p - (n div 2 + 1))"
  by (subst rank_of.simps) simp

lemma rank_of_lower: "0 < p \<Longrightarrow> p \<le> n div 2 \<Longrightarrow> rank_of n p = rank_of (n div 2) (p - 1)"
  by (subst rank_of.simps) simp

lemma DeshuffleIndex_loop_rank:
  "p < n \<Longrightarrow>
   DeshuffleIndex_loop (int p) (int n) (int (n div 2)) (base + int (n div 2))
   = Some (base + int (rank_of n p))"
proof (induction p arbitrary: n base rule: less_induct)
  case (less p)
  consider "p = 0" | "n div 2 < p" | "0 < p" "p \<le> n div 2" by linarith
  then show ?case
  proof cases
    case 1
    then show ?thesis by (subst DeshuffleIndex_loop.simps) (simp add: rank_of_0)
  next
    case 2
    let ?n = "(n - 1) div 2" and ?p = "p - (n div 2 + 1)"
    have lt: "?p < p" "?p < ?n" using 2 less.prems by presburger+
    have c: "(int n - 1) sdiv 2 = int ?n" using less.prems by (simp add: sdiv2_nat_pred)
    have i: "int p - (int (n div 2) + 1) = int ?p" using 2 by simp
    have "DeshuffleIndex_loop (int p) (int n) (int (n div 2)) (base + int (n div 2))
          = DeshuffleIndex_loop (int ?p) (int ?n) (int (?n div 2)) ((base + int (n div 2) + 1) + int (?n div 2))"
      using 2 by (subst DeshuffleIndex_loop.simps) (simp add: Let_def c i sdiv2_nat del: of_nat_diff)
    also have "\<dots> = Some ((base + int (n div 2) + 1) + int (rank_of ?n ?p))"
      by (rule less.IH[OF lt])
    finally show ?thesis using 2 by (simp add: rank_of_upper)
  next
    case 3
    let ?n = "n div 2" and ?p = "p - 1"
    have lt: "?p < p" "?p < ?n" using 3 by simp_all
    have i: "int p - 1 = int ?p" using 3 by simp
    have "DeshuffleIndex_loop (int p) (int n) (int (n div 2)) (base + int (n div 2))
          = DeshuffleIndex_loop (int ?p) (int ?n) (int (?n div 2)) (base + int (?n div 2))"
      using 3 by (subst DeshuffleIndex_loop.simps) (simp add: Let_def i sdiv2_nat del: of_nat_diff)
    also have "\<dots> = Some (base + int (rank_of ?n ?p))"
      by (rule less.IH[OF lt])
    finally show ?thesis using 3 by (simp add: rank_of_lower)
  qed
qed

lemma DeshuffleIndex_rank:
  assumes "p < n"
  shows "DeshuffleIndex (int p) (int n) = Some (int (rank_of n p))"
  using assms DeshuffleIndex_loop_rank[OF assms, of 0]
  by (simp add: DeshuffleIndex_def Let_def sdiv2_nat)

lemma shuf_nth_rank:
  "p < length xs \<Longrightarrow> rank_of (length xs) p < length xs \<and> shuf xs ! p = xs ! rank_of (length xs) p"
proof (induction "length xs" arbitrary: xs p rule: less_induct)
  case less
  then have "xs \<noteq> []" by auto
  then obtain lo m hi where s: "xs = lo @ m # hi" "length hi \<le> length lo" "length lo \<le> Suc (length hi)"
    using nonempty_split by blast
  have sh: "shuf xs = m # shuf lo @ shuf hi" using s by (simp add: shuf_split)
  have h: "length xs div 2 = length lo" "(length xs - 1) div 2 = length hi" using s by simp_all
  consider "p = 0" | "length lo < p" | "0 < p" "p \<le> length lo" by linarith
  then show ?case
  proof cases
    case 1
    have "xs ! length lo = m" using s(1) by simp
    moreover have "length lo < length xs" using s(1) by simp
    ultimately show ?thesis unfolding 1 rank_of_0 h sh by simp
  next
    case 2
    let ?p = "p - (length lo + 1)"
    have "?p < length hi" using 2 less.prems s(1) by simp
    from less.hyps[OF _ this] s(1)
    have ih: "rank_of (length hi) ?p < length hi" "shuf hi ! ?p = hi ! rank_of (length hi) ?p"
      by simp_all
    have r: "rank_of (length xs) p = length lo + 1 + rank_of (length hi) ?p"
      using rank_of_upper[of "length xs" p] 2 unfolding h by simp
    have "shuf xs ! p = shuf hi ! ?p"
      using 2 by (auto simp add: sh nth_Cons' nth_append)
    then show ?thesis unfolding r using ih s(1) by (simp add: nth_append)
  next
    case 3
    let ?p = "p - 1"
    have "?p < length lo" using 3 by simp
    from less.hyps[OF _ this] s(1)
    have ih: "rank_of (length lo) ?p < length lo" "shuf lo ! ?p = lo ! rank_of (length lo) ?p"
      by simp_all
    have r: "rank_of (length xs) p = rank_of (length lo) ?p"
      using rank_of_lower[of p "length xs"] 3 unfolding h by simp
    have "shuf xs ! p = shuf lo ! ?p"
      using 3 by (auto simp add: sh nth_Cons' nth_append)
    then show ?thesis unfolding r using ih s(1) by (simp add: nth_append)
  qed
qed

section \<open>The layout invariant of a shuffled block\<close>

text \<open>Sorting does not depend on the order of the elements, so the sorted order of the
  layout of a sorted block is the block.\<close>

lemma foldr_insort_insort:
  "foldr insort (insort a zs) ys = insort a (foldr insort zs (ys :: 'a::linorder list))"
  by (induction zs) (auto simp: insort_left_comm)

lemma foldr_insort_sort:
  "foldr insort (sort xs) ys = foldr insort xs (ys :: 'a::linorder list)"
  by (induction xs) (simp_all add: foldr_insort_insort)

lemma sort_append_foldr:
  "sort (xs @ ys) = foldr insort (sort xs) (sort (ys :: 'a::linorder list))"
  by (simp add: sort_key_def foldr_insort_sort[unfolded sort_key_def])

lemma sort_middle: "sort (lo @ m # hi) = insort m (sort (lo @ (hi :: 'a::linorder list)))"
  by (induction lo) (simp_all add: insort_left_comm)

lemma sort_shuf_eq: "sort (shuf xs) = sort (xs :: 'a::linorder list)"
proof (induction "length xs" arbitrary: xs rule: less_induct)
  case less
  show ?case
  proof (cases "xs = []")
    case True
    then show ?thesis by simp
  next
    case False
    then obtain lo m hi where s: "xs = lo @ m # hi" "length hi \<le> length lo" "length lo \<le> Suc (length hi)"
      using nonempty_split by blast
    have "sort (shuf lo) = sort lo" "sort (shuf hi) = sort hi"
      using less[of lo] less[of hi] s(1) by simp_all
    then have "sort (shuf lo @ shuf hi) = sort (lo @ hi)"
      by (simp only: sort_append_foldr)
    then show ?thesis using s by (simp add: shuf_split sort_middle)
  qed
qed

lemma sort_shuf: "sorted xs \<Longrightarrow> sort (shuf xs) = (xs :: 'a::linorder list)"
  by (simp add: sort_shuf_eq sorted_sort_id)

lemma layout_invariant_shuf:
  "sorted S \<Longrightarrow> layout_invariant (\<lambda>n. (n - 1) div 2) (shuf S)"
proof (induction "length S" arbitrary: S rule: less_induct)
  case less
  show ?case
  proof (cases "S = []")
    case True
    then show ?thesis by (subst layout_invariant.simps) simp
  next
    case False
    then obtain lo m hi where s: "S = lo @ m # hi" "length hi \<le> length lo" "length lo \<le> Suc (length hi)"
      using nonempty_split by blast
    have sh: "shuf S = m # shuf lo @ shuf hi" using s by (simp add: shuf_split)
    have srt: "sorted lo" "sorted hi" using sorted_split less.prems s(1) by blast+
    have h: "length S div 2 = length lo" "(length S - 1) div 2 = length hi"
      using s by simp_all
    have ne: "shuf S \<noteq> []" using sh by simp
    have "shuf S ! 0 = m" unfolding sh by simp
    moreover have "S ! length lo = m" unfolding s(1) by simp
    ultimately have 1: "shuf S ! 0 = S ! length lo" by simp
    have 2: "take (length lo) (drop 1 (shuf S)) = shuf lo" by (simp add: sh)
    have 3: "drop (1 + length lo) (shuf S) = shuf hi" by (simp add: sh)
    have 4: "take (length lo) S = lo" "drop (1 + length lo) S = hi" by (simp_all add: s(1))
    have 5: "layout_invariant (\<lambda>n. (n - 1) div 2) (shuf lo)" "layout_invariant (\<lambda>n. (n - 1) div 2) (shuf hi)"
      using less.hyps[of lo] less.hyps[of hi] srt s(1) by simp_all
    show ?thesis
      by (subst layout_invariant.simps)
         (simp only: ne if_False Let_def h sort_shuf[OF less.prems] 1 2 3 4 5 sort_shuf[OF srt(1)]
            sort_shuf[OF srt(2)] length_shuf simp_thms)
  qed
qed

section \<open>RemoveShuffledArrayValue and InsertShuffledArrayValue on a shuffled array\<close>

lemma search_shuf:
  assumes "sorted S"
  shows "\<exists>r. ShuffledBinarySearch k (shuf S @ rest) (int (length S)) = Some r \<and>
           (if k \<in> set S then 0 \<le> r \<and> r < int (length S) \<and> shuf S ! nat r = k else r = - 1)"
proof -
  from search_block[OF assms, of k "[]" rest]
  have "\<exists>r. snd (ShuffledBinarySearch_loop k (shuf S @ rest) 0 (int (length S))) = Some r \<and>
        (if k \<in> set S then 0 \<le> r \<and> r < int (length S) \<and> (shuf S @ rest) ! nat r = k else r = - 1)"
    by (simp cong: if_cong)
  then obtain r where r: "ShuffledBinarySearch k (shuf S @ rest) (int (length S)) = Some r"
    "if k \<in> set S then 0 \<le> r \<and> r < int (length S) \<and> (shuf S @ rest) ! nat r = k else r = - 1"
    unfolding ShuffledBinarySearch_def by blast
  show ?thesis
  proof (cases "k \<in> set S")
    case True
    with r(2) have "nat r < length (shuf S)" by auto
    then have "(shuf S @ rest) ! nat r = shuf S ! nat r" by (simp add: nth_append)
    with r True show ?thesis by simp
  next
    case False
    with r show ?thesis by simp
  qed
qed

text \<open>In a sorted list, taking out the element at a position where \<open>k\<close> stands is
  taking out the first \<open>k\<close>: all elements between the two are \<open>k\<close>.\<close>

lemma remove1_nth:
  "sorted S \<Longrightarrow> i < length S \<Longrightarrow> remove1 (S ! i) S = take i S @ drop (Suc i) (S :: int list)"
proof (induction S arbitrary: i)
  case Nil
  then show ?case by simp
next
  case (Cons a S)
  show ?case
  proof (cases i)
    case 0
    then show ?thesis by simp
  next
    case (Suc i')
    then have i': "i' < length S" using Cons.prems(2) by simp
    have srt: "sorted S" using Cons.prems(1) by simp
    show ?thesis
    proof (cases "a = S ! i'")
      case True
      have "\<forall>x\<in>set (take i' S). x = a"
      proof
        fix x assume "x \<in> set (take i' S)"
        then obtain j where j: "j < i'" "x = S ! j"
          using i' by (auto simp: in_set_conv_nth)
        then have "S ! j \<le> S ! i'" using srt i' by (simp add: sorted_nth_mono)
        moreover have "a \<le> S ! j" using Cons.prems(1) j i' by simp
        ultimately show "x = a" using True j by simp
      qed
      then have t: "take i' S = replicate i' a"
        using i' by (intro replicate_eqI) simp_all
      have "S = take i' S @ S ! i' # drop (Suc i') S"
        using i' by (simp add: id_take_nth_drop)
      then have "S = replicate i' a @ a # drop (Suc i') S"
        using t True by simp
      also have "\<dots> = a # replicate i' a @ drop (Suc i') S"
        by (simp add: replicate_append_same)
      finally have "S = a # take i' S @ drop (Suc i') S" using t by simp
      then show ?thesis using Suc True by simp
    next
      case False
      then show ?thesis using Suc Cons.IH[OF srt i'] by simp
    qed
  qed
qed

lemma ShuffleSortedArray_region:
  "length S < 2 ^ 64 \<Longrightarrow> ShuffleSortedArray (S @ rest) (int (length S)) = Some (shuf S @ rest)"
proof -
  assume "length S < 2 ^ 64"
  then have "int (length S) < 2 ^ 64"
    by (metis of_nat_less_iff of_nat_numeral of_nat_power)
  then show ?thesis by (simp add: ShuffleSortedArray_eq)
qed

lemma SortShuffledArray_region:
  "length S < 2 ^ 64 \<Longrightarrow> SortShuffledArray (S @ rest) (int (length S)) = Some (unshuf S @ rest)"
proof -
  assume "length S < 2 ^ 64"
  then have "int (length S) < 2 ^ 64"
    by (metis of_nat_less_iff of_nat_numeral of_nat_power)
  then show ?thesis by (simp add: SortShuffledArray_eq)
qed

lemma close_gap:
  assumes "i < length S"
  shows "(if int i < int (length S) - 1
          then memmove (S @ rest) (int i) (int i + 1) (int (length S) - 1 - int i)
          else Some (S @ rest))
         = Some ((take i S @ drop (Suc i) S) @ last S # rest)"
proof (cases "int i < int (length S) - 1")
  case True
  then have i: "Suc i < length S" by simp
  have n: "nat (int (length S) - 1 - int i) = length S - 1 - i" "nat (int i + 1) = Suc i"
    "nat (int i + (int (length S) - 1 - int i)) = length S - 1"
    using i by simp_all
  have c: "0 \<le> int (length S) - 1 - int i \<and> 0 \<le> int i \<and> 0 \<le> int i + 1 \<and>
        int i + (int (length S) - 1 - int i) \<le> int (length (S @ rest)) \<and>
        int i + 1 + (int (length S) - 1 - int i) \<le> int (length (S @ rest))"
    using i by simp
  have ne: "S \<noteq> []" using i by auto
  have "drop (length (butlast S)) (butlast S @ [last S]) = [last S]" by simp
  then have l: "drop (length S - 1) S = [last S]"
    using ne by simp
  have "memmove (S @ rest) (int i) (int i + 1) (int (length S) - 1 - int i)
        = Some (take i (S @ rest) @ take (length S - 1 - i) (drop (Suc i) (S @ rest)) @ drop (length S - 1) (S @ rest))"
    unfolding memmove_def using c by (simp only: if_True n nat_int simp_thms)
  also have "\<dots> = Some ((take i S @ drop (Suc i) S) @ last S # rest)"
    using i l by simp
  finally show ?thesis using True by simp
next
  case False
  then have i: "i = length S - 1" "S \<noteq> []" using assms by auto
  have t: "take i S = butlast S" by (simp add: i(1) butlast_conv_take)
  have dr: "drop (Suc i) S = []" using i by simp
  have "S @ rest = (butlast S @ [last S]) @ rest" using i(2) by simp
  also have "\<dots> = (take i S @ drop (Suc i) S) @ last S # rest"
    unfolding t dr by simp
  finally show ?thesis using False by simp
qed

lemma RemoveShuffledArrayValue_present:
  assumes "sorted S" "k \<in> set S" "length S < 2 ^ 64"
  shows "RemoveShuffledArrayValue k (shuf S @ rest) (int (length S))
         = Some (shuf (remove1 k S) @ last S # rest, int (length S) - 1)"
proof -
  note srt = assms(1)
  from search_shuf[OF srt, of k rest] assms(2)
  obtain r where r: "ShuffledBinarySearch k (shuf S @ rest) (int (length S)) = Some r"
    "0 \<le> r" "r < int (length S)" "shuf S ! nat r = k"
    by auto
  define i where "i = rank_of (length S) (nat r)"
  have p: "nat r < length S" using r by simp
  from shuf_nth_rank[OF p] r(4)
  have i: "i < length S" "S ! i = k" by (simp_all add: i_def)
  have de: "DeshuffleIndex r (int (length S)) = Some (int i)"
    using DeshuffleIndex_rank[OF p] r(2) by (simp add: i_def)
  have so: "SortShuffledArray (shuf S @ rest) (int (length S)) = Some (S @ rest)"
    using SortShuffledArray_region[of "shuf S" rest] assms(3) by (simp add: unshuf_shuf)
  have rm: "remove1 k S = take i S @ drop (Suc i) S"
    using remove1_nth[OF srt i(1)] i(2) by simp
  have "0 < length S" using assms(2) by (rule length_pos_if_in_set)
  then have "int (length S - 1) = int (length S) - 1" by linarith
  then have len: "int (length (remove1 k S)) = int (length S) - 1"
    using assms(2) by (simp only: length_remove1 if_True)
  have "length (remove1 k S) < 2 ^ 64" using assms(2,3) by (simp add: length_remove1)
  from ShuffleSortedArray_region[OF this, of "last S # rest"]
  have "ShuffleSortedArray (remove1 k S @ last S # rest) (int (length S) - 1)
        = Some (shuf (remove1 k S) @ last S # rest)"
    unfolding len .
  then have sh: "ShuffleSortedArray ((take i S @ drop (Suc i) S) @ last S # rest) (int (length S) - 1)
        = Some (shuf (take i S @ drop (Suc i) S) @ last S # rest)"
    unfolding rm .
  show ?thesis
    unfolding RemoveShuffledArrayValue_def rm
    by (simp only: r(1) de so bind.bind_lunit r(2) if_True close_gap[OF i(1)] Let_def sh)
qed

lemma rd_prefix: "j < length S \<Longrightarrow> rd (S @ rest) (int j) = Some (S ! j)"
  by (simp add: rd_def nth_append)

lemma sorted_below:
  assumes "sorted S" "j < length S" "S ! j < k"
  shows "\<forall>j'<Suc j. S ! j' < (k::int)"
proof (intro allI impI)
  fix j' assume "j' < Suc j"
  then have "j' \<le> j" by simp
  then have "S ! j' \<le> S ! j" using assms(1,2) by (simp add: sorted_nth_mono)
  then show "S ! j' < k" using assms(3) by simp
qed

text \<open>The slot search on a sorted \<open>S\<close> of at most \<open>2 ^ 30\<close> elements without the key (the
  sum \<^verbatim>\<open>first+end\<close> then stays an \<^verbatim>\<open>int\<close>), entered with \<open>first = f\<close> and
  \<open>end = e\<close>: below \<open>f\<close> all elements are smaller than the key, and \<open>e\<close> is the count or
  the element before \<open>e\<close> is greater. It leaves either with \<open>end = first\<close> and all of \<open>S\<close>
  smaller than the key, or by the \<^verbatim>\<open>break\<close> with \<open>index\<close> the place of the key.\<close>

lemma insert_slot_loop_result:
  assumes "sorted S" "k \<notin> set S" "length S \<le> 2 ^ 30"
  shows "f \<le> e \<Longrightarrow> e \<le> length S \<Longrightarrow> \<forall>j<f. S ! j < k \<Longrightarrow>
         e = length S \<or> (0 < e \<and> k < S ! (e - 1)) \<Longrightarrow>
         (\<exists>f' i'. insert_slot_loop k (S @ rest) (int f) (int e) i0 = Some (int f', int f', i') \<and>
                 (\<forall>x\<in>set S. x < k)) \<or>
         (\<exists>f' e' j. insert_slot_loop k (S @ rest) (int f) (int e) i0 = Some (int f', int e', int j) \<and>
                 e' \<noteq> f' \<and> j < length S \<and> k < S ! j \<and> (\<forall>j'<j. S ! j' < k))"
proof (induction "e - f" arbitrary: e f i0 rule: less_induct)
  case less
  show ?case
  proof (cases "e = f")
    case True
    have "insert_slot_loop k (S @ rest) (int f) (int e) i0 = Some (int f, int f, i0)"
      using True by (subst insert_slot_loop.simps) simp
    moreover have "f = length S"
    proof (rule ccontr)
      assume "f \<noteq> length S"
      with less.prems(4) True have "0 < f" "k < S ! (f - 1)" by auto
      moreover have "S ! (f - 1) < k" using less.prems(3) \<open>0 < f\<close> by simp
      ultimately show False by simp
    qed
    then have "\<forall>x\<in>set S. x < k" using less.prems(3) by (auto simp: in_set_conv_nth)
    ultimately show ?thesis by blast
  next
    case False
    define m where "m = (f + e) div 2"
    have m: "f \<le> m" "m < e" "m < length S" using False less.prems(1,2) by (simp_all add: m_def)
    have ix: "(int f + int e) sdiv 2 = int m"
      using sdiv2_nat[of "f + e"] by (simp add: m_def)
    have "length S \<le> 1073741824" using assms(3) by simp
    then have "int f + int e \<le> 2147483647" using m(1,2) less.prems(2) by linarith
    then have ad: "int_add (int f) (int e) = Some (int f + int e)"
      by (simp add: int_add_def INT_MAX_def INT_MIN_def)
    have rdm: "rd (S @ rest) (int m) = Some (S ! m)" using m by (simp add: rd_prefix)
    have ne: "int e \<noteq> int f" using False by simp
    have nk: "S ! m \<noteq> k" using assms(2) m(3) by (metis nth_mem)
    consider (slot) "k < S ! m" "m = 0 \<or> S ! (m - 1) < k"
      | (up) "S ! m < k"
      | (down) "k < S ! m" "0 < m" "k < S ! (m - 1)"
    proof -
      have "m = 0 \<or> S ! (m - 1) \<noteq> k" using assms(2) m(3) by (metis nth_mem less_imp_diff_less)
      then show ?thesis using nk slot up down by (cases "k < S ! m"; cases "m = 0") force+
    qed
    then show ?thesis
    proof cases
      case slot
      have fd: "(if int m = 0 then Some True
                 else rd (S @ rest) (int m - 1) \<bind> (\<lambda>prev. Some (prev < k))) = Some True"
      proof (cases "m = 0")
        case True
        then show ?thesis by simp
      next
        case False
        then have "int m - 1 = int (m - 1)" by simp
        moreover have "rd (S @ rest) (int (m - 1)) = Some (S ! (m - 1))"
          using m(3) by (intro rd_prefix) simp
        ultimately show ?thesis using False slot(2) by simp
      qed
      have "insert_slot_loop k (S @ rest) (int f) (int e) i0 = Some (int f, int e, int m)"
        by (subst insert_slot_loop.simps)
           (simp only: ne if_True Let_def ad ix rdm bind.bind_lunit slot(1) fd simp_thms)
      moreover have "\<forall>j'<m. S ! j' < k"
      proof (cases "m = 0")
        case True
        then show ?thesis by simp
      next
        case False
        with slot(2) have "S ! (m - 1) < k" by simp
        from sorted_below[OF assms(1) _ this] m(3) False show ?thesis by simp
      qed
      ultimately show ?thesis using False m(3) slot(1) by blast
    next
      case up
      have nlt: "\<not> k < S ! m" using up by simp
      have "insert_slot_loop k (S @ rest) (int f) (int e) i0
            = insert_slot_loop k (S @ rest) (int m + 1) (int e) (int m)"
        by (subst insert_slot_loop.simps)
           (simp only: ne if_True if_False Let_def ad ix rdm bind.bind_lunit nlt up simp_thms)
      then have "insert_slot_loop k (S @ rest) (int f) (int e) i0
            = insert_slot_loop k (S @ rest) (int (Suc m)) (int e) (int m)"
        by (simp add: add.commute)
      moreover have "e - Suc m < e - f" "Suc m \<le> e" using m by simp_all
      moreover have "\<forall>j<Suc m. S ! j < k" using sorted_below[OF assms(1) m(3) up] .
      ultimately show ?thesis
        using less.hyps[of e "Suc m" "int m"] less.prems(2,4) by simp
    next
      case down
      have "int m - 1 = int (m - 1)" using down(2) by simp
      moreover have "rd (S @ rest) (int (m - 1)) = Some (S ! (m - 1))"
        using m(3) by (intro rd_prefix) simp
      ultimately have fd: "(if int m = 0 then Some True
                 else rd (S @ rest) (int m - 1) \<bind> (\<lambda>prev. Some (prev < k))) = Some False"
        using down by simp
      have nlt: "\<not> S ! m < k" using down(1) by simp
      have "insert_slot_loop k (S @ rest) (int f) (int e) i0
            = insert_slot_loop k (S @ rest) (int f) (int m) (int m)"
        by (subst insert_slot_loop.simps)
           (simp only: ne if_True if_False Let_def ad ix rdm bind.bind_lunit down(1) fd nlt simp_thms)
      moreover have "m - f < e - f" "f \<le> m" "m \<le> length S" using m by simp_all
      moreover have "m = length S \<or> (0 < m \<and> k < S ! (m - 1))" using down by simp
      ultimately show ?thesis
        using less.hyps[of m f "int m"] less.prems(3) by simp
    qed
  qed
qed

lemma insort_append_below:
  "\<forall>x\<in>set xs. x < k \<Longrightarrow> insort k (xs @ ys) = xs @ insort (k::int) ys"
  by (induction xs) auto

lemma insort_at:
  assumes "sorted S" "j < length S" "k < S ! j" "\<forall>j'<j. S ! j' < (k::int)"
  shows "insort k S = take j S @ k # drop j S"
proof -
  have lo: "\<forall>x\<in>set (take j S). x < k"
    using assms(2,4) by (auto simp: in_set_conv_nth)
  have "\<forall>y\<in>set (drop j S). S ! j \<le> y"
  proof
    fix y assume "y \<in> set (drop j S)"
    then obtain i where "i < length S - j" "y = S ! (j + i)"
      by (auto simp: in_set_conv_nth)
    then show "S ! j \<le> y" using assms(1) by (simp add: sorted_nth_mono)
  qed
  then have "\<forall>y\<in>set (drop j S). k \<le> y" using assms(3) by fastforce
  then have hi: "insort k (drop j S) = k # drop j S" by (simp add: insort_is_Cons)
  have "insort k S = insort k (take j S @ drop j S)" by simp
  also have "\<dots> = take j S @ k # drop j S"
    using lo hi by (simp only: insort_append_below)
  finally show ?thesis .
qed

lemma open_gap:
  assumes "j < length S"
  shows "memmove (S @ x # rest) (int j + 1) (int j) (int (length S) - int j) \<bind> (\<lambda>a. wr a (int j) k)
         = Some ((take j S @ k # drop j S) @ rest)"
proof -
  have n: "nat (int (length S) - int j) = length S - j" "nat (int j + 1) = Suc j"
    "nat (int j + 1 + (int (length S) - int j)) = Suc (length S)"
    using assms by simp_all
  have c: "0 \<le> int (length S) - int j \<and> 0 \<le> int j + 1 \<and> 0 \<le> int j \<and>
        int j + 1 + (int (length S) - int j) \<le> int (length (S @ x # rest)) \<and>
        int j + (int (length S) - int j) \<le> int (length (S @ x # rest))"
    using assms by simp
  have "memmove (S @ x # rest) (int j + 1) (int j) (int (length S) - int j)
        = Some (take (Suc j) (S @ x # rest) @ take (length S - j) (drop j (S @ x # rest)) @ drop (Suc (length S)) (S @ x # rest))"
    unfolding memmove_def using c by (simp only: if_True n nat_int simp_thms)
  also have "\<dots> = Some (take j S @ S ! j # drop j S @ rest)"
    using assms by (simp add: take_Suc_conv_app_nth)
  finally have mv: "memmove (S @ x # rest) (int j + 1) (int j) (int (length S) - int j)
        = Some (take j S @ S ! j # drop j S @ rest)" .
  have "wr (take j S @ S ! j # drop j S @ rest) (int (length (take j S)) + int (length ([]::int list))) k
        = Some (take j S @ [] @ k # drop j S @ rest)"
    using wr_middle[of "take j S" "[]" "S ! j" "drop j S @ rest" k] by simp
  then have "wr (take j S @ S ! j # drop j S @ rest) (int j) k = Some (take j S @ k # drop j S @ rest)"
    using assms by (simp add: min_def)
  then show ?thesis unfolding mv by simp
qed

lemma wr_end: "wr (S @ x # rest) (int (length S)) k = Some (S @ k # rest)"
  using wr_middle[of S "[]" x rest k] by simp

lemma InsertShuffledArrayValue_absent:
  assumes "sorted S" "k \<notin> set S" "length S \<le> 2 ^ 30"
  shows "InsertShuffledArrayValue k (shuf S @ x # rest) (int (length S))
         = Some (shuf (insort k S) @ rest, int (length S) + 1)"
proof -
  let ?n = "int (length S)"
  note srt = assms(1)
  from search_shuf[OF srt, of k "x # rest"] assms(2)
  have se: "ShuffledBinarySearch k (shuf S @ x # rest) ?n = Some (- 1)"
    by auto
  have "(2::nat) ^ 30 < 2 ^ 64 - 1" by simp
  then have b': "Suc (length S) < 2 ^ 64" using assms(3) by linarith
  then have b: "length S < 2 ^ 64" by simp
  have so: "SortShuffledArray (shuf S @ x # rest) ?n = Some (S @ x # rest)"
    using SortShuffledArray_region[of "shuf S" "x # rest"] b by (simp add: unshuf_shuf)
  have len: "int (length (insort k S)) = ?n + 1" by simp
  have "length (insort k S) < 2 ^ 64" using b' by simp
  from ShuffleSortedArray_region[OF this, of rest]
  have sh: "ShuffleSortedArray (insort k S @ rest) (?n + 1) = Some (shuf (insort k S) @ rest)"
    unfolding len .
  have neg: "(- 1 :: int) < 0" by simp
  from insert_slot_loop_result[OF srt assms(2,3), of 0 "length S" "x # rest" 0]
  consider (top) f' i' where
      "insert_slot_loop k (S @ x # rest) 0 ?n 0 = Some (int f', int f', i')" "\<forall>x\<in>set S. x < k"
    | (slot) f' e' j where
      "insert_slot_loop k (S @ x # rest) 0 ?n 0 = Some (int f', int e', int j)"
      "e' \<noteq> f'" "j < length S" "k < S ! j" "\<forall>j'<j. S ! j' < k"
    by auto
  then show ?thesis
  proof cases
    case top
    have "insort k S = S @ [k]"
      using srt top(2) by (intro sorted_insort_is_snoc) auto
    with sh have sh': "ShuffleSortedArray (S @ k # rest) (?n + 1) = Some (shuf (insort k S) @ rest)"
      by simp
    show ?thesis
      unfolding InsertShuffledArrayValue_def
      by (simp only: se so top(1) bind.bind_lunit neg if_True prod.case wr_end Let_def sh' simp_thms)
  next
    case slot
    have ne: "int e' \<noteq> int f'" using slot(2) by simp
    have "insort k S = take j S @ k # drop j S"
      using insort_at[OF srt slot(3,4,5)] .
    with sh have sh': "ShuffleSortedArray ((take j S @ k # drop j S) @ rest) (?n + 1) = Some (shuf (insort k S) @ rest)"
      by simp
    have og: "memmove (S @ x # rest) (int j + 1) (int j) (?n - int j) \<bind> (\<lambda>a. Some (int j, a)) \<bind>
              (\<lambda>(index, shuffled_array). wr shuffled_array index k \<bind> (\<lambda>shuffled_array.
                 ShuffleSortedArray shuffled_array (?n + 1) \<bind> (\<lambda>shuffled_array. Some (shuffled_array, ?n + 1))))
              = Some (shuf (insort k S) @ rest, ?n + 1)"
      using open_gap[OF slot(3), of x rest k] sh'
      by (cases "memmove (S @ x # rest) (int j + 1) (int j) (?n - int j)") simp_all
    show ?thesis
      unfolding InsertShuffledArrayValue_def
      by (simp only: se so slot(1) bind.bind_lunit neg if_True if_False prod.case ne Let_def og simp_thms)
  qed
qed

text \<open>Beyond \<open>2 ^ 30\<close> elements the sum \<^verbatim>\<open>first+end\<close> can leave the \<^verbatim>\<open>int\<close> range. With a
  key above all of \<open>S\<close> the first step of the slot search sets \<^verbatim>\<open>first\<close> to
  \<open>count / 2 + 1\<close>; when that plus the count exceeds \<open>INT_MAX\<close>, the second step
  overflows.\<close>

lemma insert_slot_loop_overflow:
  assumes "\<forall>x\<in>set S. x < k" "int (length S) \<le> INT_MAX"
    and "INT_MAX < int (length S) + (int (length S div 2) + 1)"
  shows "insert_slot_loop k (S @ rest) 0 (int (length S)) 0 = None"
proof -
  define m where "m = length S div 2"
  have big: "2 < length S" using assms(3) by (simp add: INT_MAX_def)
  then have m: "m < length S" "int m + 1 \<noteq> int (length S)" by (simp_all add: m_def)
  have ne: "int (length S) \<noteq> 0" using big by auto
  have ad: "int_add 0 (int (length S)) = Some (int (length S))"
    using assms(2) by (simp add: int_add_def INT_MIN_def)
  have ix: "int (length S) sdiv 2 = int m" by (simp add: sdiv2_nat m_def)
  have rdm: "rd (S @ rest) (int m) = Some (S ! m)" using m(1) by (rule rd_prefix)
  have lt: "S ! m < k" using assms(1) m(1) by simp
  then have nlt: "\<not> k < S ! m" by simp
  have "insert_slot_loop k (S @ rest) 0 (int (length S)) 0
        = insert_slot_loop k (S @ rest) (int m + 1) (int (length S)) (int m)"
    by (subst insert_slot_loop.simps)
       (simp only: ne if_True if_False Let_def ad ix rdm bind.bind_lunit nlt lt simp_thms)
  also have "\<dots> = None"
  proof -
    have "int_add (int m + 1) (int (length S)) = None"
      using assms(3) by (simp add: int_add_def m_def)
    then show ?thesis
      using m(2) by (subst insert_slot_loop.simps) simp
  qed
  finally show ?thesis .
qed

lemma InsertShuffledArrayValue_overflow:
  assumes "sorted S" "\<forall>x\<in>set S. x < k" "int (length S) \<le> INT_MAX"
    and "INT_MAX < int (length S) + (int (length S div 2) + 1)"
  shows "InsertShuffledArrayValue k (shuf S @ x # rest) (int (length S)) = None"
proof -
  have k: "k \<notin> set S" using assms(2) by auto
  from search_shuf[OF assms(1), of k "x # rest"] k
  have se: "ShuffledBinarySearch k (shuf S @ x # rest) (int (length S)) = Some (- 1)"
    by auto
  have "int (length S) < 2 ^ 64" using assms(3) by (simp add: INT_MAX_def)
  then have "length S < 2 ^ 64"
    by (metis of_nat_less_iff of_nat_numeral of_nat_power)
  then have so: "SortShuffledArray (shuf S @ x # rest) (int (length S)) = Some (S @ x # rest)"
    using SortShuffledArray_region[of "shuf S" "x # rest"] by (simp add: unshuf_shuf)
  have neg: "(- 1 :: int) < 0" by simp
  show ?thesis
    unfolding InsertShuffledArrayValue_def
    by (simp only: se so bind.bind_lunit neg if_True
          insert_slot_loop_overflow[OF assms(2,3,4)] bind.bind_lzero)
qed

text \<open>For a list without equal elements the two lists are the sorted lists of the sets
  \<open>S \<union> {k}\<close> and \<open>S - {k}\<close>.\<close>

lemma insort_remove1_as_sets:
  assumes "sorted S" "distinct S"
  shows "k \<notin> set S \<Longrightarrow> insort k S = sorted_list_of_set (set S \<union> {k})"
    and "remove1 k S = sorted_list_of_set (set S - {k})"
  using assms
  by (simp_all add: sorted_list_of_set_remove sorted_list_of_set.idem_if_sorted_distinct)

text \<open>The literal scenario: removing 2 from the shuffle of \<open>[0, 1, 2, 3, 4]\<close> and inserting
  2 into the result gives that shuffle back.\<close>

lemma remove_insert_scenario:
  "ShuffleSortedArray [0, 1, 2, 3, 4] 5 = Some [2, 1, 0, 4, 3] \<and>
   RemoveShuffledArrayValue 2 [2, 1, 0, 4, 3] 5 = Some ([3, 1, 0, 4, 4], 4) \<and>
   InsertShuffledArrayValue 2 [3, 1, 0, 4, 4] 4 = Some ([2, 1, 0, 4, 3], 5)"
  by code_simp

section \<open>The claims\<close>

text \<open>
  Where a theorem runs \<^verbatim>\<open>ShuffleSortedArray\<close> or \<^verbatim>\<open>SortShuffledArray\<close>, the count is
  below \<open>2 ^ 64\<close>: this is the bound \<^verbatim>\<open>count < (1 << MAX_SHUFFLE_COUNT_LOG2)\<close> that the
  source notes for its work list and that every \<^verbatim>\<open>int\<close> meets. Each result
  \<open>Some \<dots>\<close> says that the call returns, without an access outside the array or the
  work list.
\<close>

text \<open>
  C1. For every sorted sequence \<open>S\<close> of any length, \<^verbatim>\<open>ShuffleSortedArray\<close> followed by
  \<^verbatim>\<open>SortShuffledArray\<close> on the same region reproduces \<open>S\<close> element for element, and
  \<^verbatim>\<open>SortShuffledArray\<close> followed by \<^verbatim>\<open>ShuffleSortedArray\<close> reproduces a shuffled sequence.
  The region is the first \<open>length S\<close> elements of the array \<open>S @ rest\<close>. Neither transform
  looks at an element, so both round trips hold for every content of the region, sorted
  or not, shuffled or not. The count is below \<open>2 ^ 64\<close>, as every C \<^verbatim>\<open>int\<close> is: the
  work list then stays within its 64 entries.
\<close>

theorem C1_round_trip:
  "length S < 2 ^ 64 \<Longrightarrow>
   (\<exists>A. ShuffleSortedArray (S @ rest) (int (length S)) = Some A \<and>
        SortShuffledArray A (int (length S)) = Some (S @ rest)) \<and>
   (\<exists>B. SortShuffledArray (S @ rest) (int (length S)) = Some B \<and>
        ShuffleSortedArray B (int (length S)) = Some (S @ rest))"
proof -
  assume b: "length S < 2 ^ 64"
  then have c: "int (length S) < 2 ^ 64"
    by (metis of_nat_less_iff of_nat_numeral of_nat_power)
  have "ShuffleSortedArray (S @ rest) (int (length S)) = Some (shuf S @ rest)"
    using c by (simp add: ShuffleSortedArray_eq)
  moreover have "SortShuffledArray (shuf S @ rest) (int (length S)) = Some (S @ rest)"
    using c by (simp add: SortShuffledArray_eq unshuf_shuf)
  moreover have "SortShuffledArray (S @ rest) (int (length S)) = Some (unshuf S @ rest)"
    using c by (simp add: SortShuffledArray_eq)
  moreover have "ShuffleSortedArray (unshuf S @ rest) (int (length S)) = Some (S @ rest)"
    using c by (simp add: ShuffleSortedArray_eq shuf_unshuf)
  ultimately show ?thesis by simp
qed

theorem C1_round_trip_witness:
  "length [0, 1, 2, 3, 4 :: int] < 2 ^ 64 \<and>
   (\<exists>A. ShuffleSortedArray ([0, 1, 2, 3, 4] @ [9]) (int (length [0, 1, 2, 3, 4 :: int])) = Some A \<and>
        SortShuffledArray A (int (length [0, 1, 2, 3, 4 :: int])) = Some ([0, 1, 2, 3, 4] @ [9])) \<and>
   (\<exists>B. SortShuffledArray ([0, 1, 2, 3, 4] @ [9]) (int (length [0, 1, 2, 3, 4 :: int])) = Some B \<and>
        ShuffleSortedArray B (int (length [0, 1, 2, 3, 4 :: int])) = Some ([0, 1, 2, 3, 4] @ [9]))"
proof -
  have h: "length [0, 1, 2, 3, 4 :: int] < 2 ^ 64" by simp
  show ?thesis using h C1_round_trip [OF h, of "[9]"] by blast
qed

text \<open>
  C2 (as amended). For every region holding \<open>count\<close> elements in ascending order, after
  \<^verbatim>\<open>ShuffleSortedArray\<close> the region satisfies the layout invariant at every block: position
  0 holds the median of the block's sorted order, the next \<open>n div 2\<close> positions hold the
  layout of the elements below it, and the remaining \<open>(n - 1) div 2\<close> positions (the
  floor of \<open>(n - 1) / 2\<close>) hold the layout of the elements above it. The region holds the
  elements of \<open>S\<close> and the rest of the array is untouched.
\<close>

theorem C2_layout_invariant:
  "sorted S \<Longrightarrow> length S < 2 ^ 64 \<Longrightarrow>
   (\<exists>A. ShuffleSortedArray (S @ rest) (int (length S)) = Some (A @ rest) \<and>
        length A = length S \<and> sort A = S \<and>
        layout_invariant (\<lambda>n. (n - 1) div 2) A)"
proof -
  assume s: "sorted S" and b: "length S < 2 ^ 64"
  from b have c: "int (length S) < 2 ^ 64"
    by (metis of_nat_less_iff of_nat_numeral of_nat_power)
  have "ShuffleSortedArray (S @ rest) (int (length S)) = Some (shuf S @ rest)"
    using c by (simp add: ShuffleSortedArray_eq)
  then show ?thesis
    using layout_invariant_shuf[OF s] sort_shuf[OF s] by simp
qed

theorem C2_layout_invariant_witness:
  "sorted [0, 1, 2, 3 :: int] \<and> length [0, 1, 2, 3 :: int] < 2 ^ 64 \<and>
   (\<exists>A. ShuffleSortedArray ([0, 1, 2, 3] @ [7]) (int (length [0, 1, 2, 3 :: int])) = Some (A @ [7]) \<and>
        length A = length [0, 1, 2, 3 :: int] \<and> sort A = [0, 1, 2, 3] \<and>
        layout_invariant (\<lambda>n. (n - 1) div 2) A)"
proof -
  have h: "sorted [0, 1, 2, 3 :: int]" "length [0, 1, 2, 3 :: int] < 2 ^ 64" by simp_all
  show ?thesis using h C2_layout_invariant [OF h, of "[7]"] by blast
qed

text \<open>
  C2 as the specification states it, with the ceiling of \<open>(n - 1) / 2\<close> remaining
  positions, fails on the sorted region \<open>[0, 1]\<close>: it is shuffled to \<open>[1, 0]\<close>, where
  after the median and the one position of the lower elements no position remains, while
  the ceiling of \<open>1 / 2\<close> is \<open>1\<close>.
\<close>

theorem C2_ceiling_counterexample:
  "sorted [0, 1 :: int] \<and> ShuffleSortedArray [0, 1] 2 = Some [1, 0] \<and>
   \<not> layout_invariant (\<lambda>n. ceil_div2 (n - 1)) [1, 0]"
  by code_simp

text \<open>
  C3 (as amended). For every strictly ascending sequence \<open>S\<close> (sorted, no two elements
  equal) of length \<open>n\<close> and every \<open>i < n\<close>: searching \<open>S ! i\<close> in the shuffled \<open>S\<close> and
  passing the position found to \<^verbatim>\<open>DeshuffleIndex\<close> gives \<open>i\<close>.
\<close>

theorem C3_deshuffle_search:
  "sorted_wrt (<) S \<Longrightarrow> length S < 2 ^ 64 \<Longrightarrow> i < length S \<Longrightarrow>
   (\<exists>A p. ShuffleSortedArray S (int (length S)) = Some A \<and>
          ShuffledBinarySearch (S ! i) A (int (length S)) = Some p \<and>
          DeshuffleIndex p (int (length S)) = Some (int i))"
proof -
  assume s: "sorted_wrt (<) S" and b: "length S < 2 ^ 64" and i: "i < length S"
  from b have c: "int (length S) < 2 ^ 64"
    by (metis of_nat_less_iff of_nat_numeral of_nat_power)
  from s have srt: "sorted S" and d: "distinct S"
    by (simp_all add: strict_sorted_iff)
  have sh: "ShuffleSortedArray S (int (length S)) = Some (shuf S)"
    using c ShuffleSortedArray_eq[of "int (length S)" S] by simp
  from search_block[OF srt, of "S ! i" "[]" "[]"] i
  obtain p where p: "ShuffledBinarySearch (S ! i) (shuf S) (int (length S)) = Some p"
    "0 \<le> p" "p < int (length S)" "shuf S ! nat p = S ! i"
    by (auto simp: ShuffledBinarySearch_def)
  have n: "nat p < length S" using p by simp
  from shuf_nth_rank[OF n] p(4)
  have "rank_of (length S) (nat p) < length S" "S ! rank_of (length S) (nat p) = S ! i"
    by simp_all
  then have "rank_of (length S) (nat p) = i"
    using d i by (simp add: nth_eq_iff_index_eq)
  then have "DeshuffleIndex p (int (length S)) = Some (int i)"
    using DeshuffleIndex_rank[OF n] p(2) by simp
  then show ?thesis using sh p(1) by simp
qed

theorem C3_deshuffle_search_witness:
  "sorted_wrt (<) [0, 1, 2, 3, 4 :: int] \<and> length [0, 1, 2, 3, 4 :: int] < 2 ^ 64 \<and>
   3 < length [0, 1, 2, 3, 4 :: int] \<and>
   (\<exists>A p. ShuffleSortedArray [0, 1, 2, 3, 4] (int (length [0, 1, 2, 3, 4 :: int])) = Some A \<and>
          ShuffledBinarySearch ([0, 1, 2, 3, 4] ! 3) A (int (length [0, 1, 2, 3, 4 :: int])) = Some p \<and>
          DeshuffleIndex p (int (length [0, 1, 2, 3, 4 :: int])) = Some (int 3))"
proof -
  have h: "sorted_wrt (<) [0, 1, 2, 3, 4 :: int]" "length [0, 1, 2, 3, 4 :: int] < 2 ^ 64"
    "3 < length [0, 1, 2, 3, 4 :: int]" by simp_all
  show ?thesis using h C3_deshuffle_search [OF h] by blast
qed

text \<open>
  C3 as the specification states it, for sorted sequences that may hold equal elements,
  fails on \<open>[1, 1]\<close> at \<open>i = 0\<close>: the search stops at shuffled position 0, whose sorted
  position is 1.
\<close>

theorem C3_duplicates_counterexample:
  "sorted [1, 1 :: int] \<and> (0::nat) < length [1, 1 :: int] \<and>
   ShuffleSortedArray [1, 1] 2 = Some [1, 1] \<and>
   ShuffledBinarySearch ([1, 1] ! 0) [1, 1] 2 = Some 0 \<and>
   DeshuffleIndex 0 2 = Some 1 \<and>
   DeshuffleIndex 0 2 \<noteq> Some (int 0)"
  by code_simp

text \<open>
  C4. For every key and every array, with a count that is not negative, the positions at
  which \<^verbatim>\<open>ShuffledBinarySearch\<close> reads an element are strictly increasing in the order of
  the reads.
\<close>

theorem C4_reads_increasing:
  "0 \<le> count \<Longrightarrow> sorted_wrt (<) (search_reads val shuffled_array count)"
  using ShuffledBinarySearch_loop_reads[of count val shuffled_array 0]
  by (simp add: search_reads_def)

theorem C4_reads_increasing_witness:
  "(0::int) \<le> 5 \<and> search_reads 3 [2, 1, 0, 4, 3] 5 = [0, 3, 4] \<and>
   sorted_wrt (<) (search_reads 3 [2, 1, 0, 4, 3] 5)"
proof -
  have r: "search_reads 3 [2, 1, 0, 4, 3] 5 = [0, 3, 4]" by code_simp
  show ?thesis using r C4_reads_increasing [of 5 3 "[2, 1, 0, 4, 3]"] by simp
qed

text \<open>
  C5. For every sorted sequence \<open>S\<close> in shuffled layout, \<^verbatim>\<open>InsertShuffledArrayValue\<close> with a
  key that is not in \<open>S\<close> returns the count plus one and leaves the shuffle of the sorted
  \<open>S \<union> {k}\<close>. The code does not, on the sorted sequence \<open>0, 1, \<dots>, 1499999999\<close> with the
  key \<open>1500000000\<close> and one free cell after the region: the search finds no duplicate, the
  region is put back in sorted order, and the slot search, first at index \<open>750000000\<close>,
  then adds \<^verbatim>\<open>first\<close> = \<open>750000001\<close> and \<^verbatim>\<open>end\<close> = \<open>1500000000\<close> in \<^verbatim>\<open>int\<close>. The sum is
  above \<open>INT_MAX\<close>: the call has no defined result. Up to \<open>2 ^ 30\<close> elements the sum
  stays an \<^verbatim>\<open>int\<close> and the claim holds, equal elements in \<open>S\<close> allowed
  (\<open>InsertShuffledArrayValue_absent\<close>, \<open>RemoveShuffledArrayValue_present\<close>,
  \<open>remove_insert_scenario\<close>); \<^verbatim>\<open>RemoveShuffledArrayValue\<close> adds no two indices and
  holds for every count.
\<close>

theorem C5_insert_midpoint_overflow:
  "sorted (map int [0..<1500000000]) \<and>
   (1500000000::int) \<notin> set (map int [0..<1500000000]) \<and>
   (\<exists>A. ShuffleSortedArray (map int [0..<1500000000]) 1500000000 = Some A \<and>
        InsertShuffledArrayValue 1500000000 (A @ [0]) 1500000000 = None)"
proof -
  define S where "S = map int [0..<1500000000]"
  have len: "length S = 1500000000" by (simp add: S_def)
  have nth: "\<And>i. i < 1500000000 \<Longrightarrow> S ! i = int i" by (simp add: S_def)
  have srt: "sorted S"
    unfolding sorted_iff_nth_mono len using nth by simp
  have below: "\<forall>x\<in>set S. x < 1500000000"
    unfolding all_set_conv_all_nth len using nth by simp
  then have notin: "(1500000000::int) \<notin> set S" by auto
  have l: "int (length S) = 1500000000" by (simp add: len)
  have "length S < 2 ^ 64" by (simp add: len)
  from ShuffleSortedArray_region[OF this, of "[]"]
  have sh: "ShuffleSortedArray S 1500000000 = Some (shuf S)" by (simp add: l)
  have "InsertShuffledArrayValue 1500000000 (shuf S @ 0 # []) (int (length S)) = None"
    using below by (intro InsertShuffledArrayValue_overflow[OF srt]) (simp_all add: len INT_MAX_def)
  then have "InsertShuffledArrayValue 1500000000 (shuf S @ [0]) 1500000000 = None"
    by (simp add: l)
  with srt notin sh show ?thesis unfolding S_def by blast
qed

text \<open>
  C6. For every sorted \<open>S\<close> of length \<open>n\<close> and every key \<open>k\<close>: on the shuffled \<open>S\<close>,
  \<^verbatim>\<open>ShuffledBinarySearch\<close> returns \<open>-1\<close> when \<open>k\<close> is not in \<open>S\<close>, and when \<open>k\<close> is in \<open>S\<close> it
  returns a position \<open>p\<close> in \<open>[0, n)\<close> at which the shuffled array holds \<open>k\<close>.
\<close>

theorem C6_search_result:
  "sorted S \<Longrightarrow> length S < 2 ^ 64 \<Longrightarrow>
   (\<exists>A. ShuffleSortedArray S (int (length S)) = Some A \<and>
        (k \<notin> set S \<longrightarrow> ShuffledBinarySearch k A (int (length S)) = Some (- 1)) \<and>
        (k \<in> set S \<longrightarrow>
           (\<exists>p. ShuffledBinarySearch k A (int (length S)) = Some p \<and>
                0 \<le> p \<and> p < int (length S) \<and> A ! nat p = k)))"
proof -
  assume srt: "sorted S" and b: "length S < 2 ^ 64"
  from b have c: "int (length S) < 2 ^ 64"
    by (metis of_nat_less_iff of_nat_numeral of_nat_power)
  have sh: "ShuffleSortedArray S (int (length S)) = Some (shuf S)"
    using c ShuffleSortedArray_eq[of "int (length S)" S] by simp
  from search_block[OF srt, of k "[]" "[]"]
  show ?thesis unfolding sh by (auto simp: ShuffledBinarySearch_def split: if_splits)
qed

theorem C6_search_result_witness:
  "sorted [0, 1, 2, 3, 4 :: int] \<and> length [0, 1, 2, 3, 4 :: int] < 2 ^ 64 \<and>
   (5::int) \<notin> set [0, 1, 2, 3, 4] \<and> (3::int) \<in> set [0, 1, 2, 3, 4] \<and>
   (\<exists>A. ShuffleSortedArray [0, 1, 2, 3, 4] (int (length [0, 1, 2, 3, 4 :: int])) = Some A \<and>
        ShuffledBinarySearch 5 A (int (length [0, 1, 2, 3, 4 :: int])) = Some (- 1) \<and>
        (\<exists>p. ShuffledBinarySearch 3 A (int (length [0, 1, 2, 3, 4 :: int])) = Some p \<and>
             0 \<le> p \<and> p < int (length [0, 1, 2, 3, 4 :: int]) \<and> A ! nat p = 3))"
proof -
  have h: "sorted [0, 1, 2, 3, 4 :: int]" "length [0, 1, 2, 3, 4 :: int] < 2 ^ 64" by simp_all
  have m: "(5::int) \<notin> set [0, 1, 2, 3, 4]" "(3::int) \<in> set [0, 1, 2, 3, 4]" by simp_all
  from C6_search_result [OF h, of 5] C6_search_result [OF h, of 3] m
  show ?thesis using h by (metis option.inject)
qed

text \<open>
  C7. On the shuffle of a sorted \<open>S\<close>: \<^verbatim>\<open>InsertShuffledArrayValue\<close> with a key already in
  \<open>S\<close> returns the count it was given and the array as it was, and
  \<^verbatim>\<open>RemoveShuffledArrayValue\<close> with a key not in \<open>S\<close> does the same.
\<close>

theorem C7_no_change:
  "sorted S \<Longrightarrow> length S < 2 ^ 64 \<Longrightarrow>
   (\<exists>A. ShuffleSortedArray S (int (length S)) = Some A \<and>
        (k \<in> set S \<longrightarrow>
           InsertShuffledArrayValue k (A @ rest) (int (length S)) = Some (A @ rest, int (length S))) \<and>
        (k \<notin> set S \<longrightarrow>
           RemoveShuffledArrayValue k (A @ rest) (int (length S)) = Some (A @ rest, int (length S))))"
proof -
  assume srt: "sorted S" and b: "length S < 2 ^ 64"
  have sh: "ShuffleSortedArray S (int (length S)) = Some (shuf S)"
    using ShuffleSortedArray_region[OF b, of "[]"] by simp
  from search_shuf[OF srt, of k rest]
  obtain r where r: "ShuffledBinarySearch k (shuf S @ rest) (int (length S)) = Some r"
    "k \<in> set S \<Longrightarrow> 0 \<le> r" "k \<notin> set S \<Longrightarrow> r = - 1"
    by (auto split: if_splits)
  have "k \<in> set S \<Longrightarrow>
        InsertShuffledArrayValue k (shuf S @ rest) (int (length S)) = Some (shuf S @ rest, int (length S))"
    using r by (simp add: InsertShuffledArrayValue_def)
  moreover have "k \<notin> set S \<Longrightarrow>
        RemoveShuffledArrayValue k (shuf S @ rest) (int (length S)) = Some (shuf S @ rest, int (length S))"
    using r by (simp add: RemoveShuffledArrayValue_def)
  ultimately show ?thesis using sh by simp
qed

theorem C7_no_change_witness:
  "sorted [0, 1, 2, 3, 4 :: int] \<and> length [0, 1, 2, 3, 4 :: int] < 2 ^ 64 \<and>
   (3::int) \<in> set [0, 1, 2, 3, 4] \<and> (7::int) \<notin> set [0, 1, 2, 3, 4] \<and>
   (\<exists>A. ShuffleSortedArray [0, 1, 2, 3, 4] (int (length [0, 1, 2, 3, 4 :: int])) = Some A \<and>
        InsertShuffledArrayValue 3 (A @ [9]) (int (length [0, 1, 2, 3, 4 :: int]))
          = Some (A @ [9], int (length [0, 1, 2, 3, 4 :: int])) \<and>
        RemoveShuffledArrayValue 7 (A @ [9]) (int (length [0, 1, 2, 3, 4 :: int]))
          = Some (A @ [9], int (length [0, 1, 2, 3, 4 :: int])))"
proof -
  have h: "sorted [0, 1, 2, 3, 4 :: int]" "length [0, 1, 2, 3, 4 :: int] < 2 ^ 64" by simp_all
  have m: "(3::int) \<in> set [0, 1, 2, 3, 4]" "(7::int) \<notin> set [0, 1, 2, 3, 4]" by simp_all
  from C7_no_change [OF h, of 3 "[9]"] C7_no_change [OF h, of 7 "[9]"] m
  show ?thesis using h by (metis option.inject)
qed

text \<open>
  C8. For every count \<open>n\<close> and every position outside \<open>[0, n)\<close>, the sentinel \<open>-1\<close>
  included, \<^verbatim>\<open>DeshuffleIndex\<close> returns \<open>-1\<close>; so the \<open>-1\<close> of a failed search, passed
  on to \<^verbatim>\<open>DeshuffleIndex\<close>, gives \<open>-1\<close> again.
\<close>

theorem C8_deshuffle_out_of_range:
  "(position < 0 \<or> n \<le> position \<longrightarrow> DeshuffleIndex position n = Some (- 1)) \<and>
   DeshuffleIndex (- 1) n = Some (- 1) \<and>
   (ShuffledBinarySearch val a n = Some (- 1) \<longrightarrow>
      ShuffledBinarySearch val a n \<bind> (\<lambda>p. DeshuffleIndex p n) = Some (- 1))"
  by (simp add: DeshuffleIndex_def)

theorem C8_deshuffle_out_of_range_witness:
  "((7::int) < 0 \<or> (5::int) \<le> 7) \<and> DeshuffleIndex 7 5 = Some (- 1) \<and>
   ShuffledBinarySearch 6 [2, 1, 0, 4, 3] 5 = Some (- 1) \<and>
   ShuffledBinarySearch 6 [2, 1, 0, 4, 3] 5 \<bind> (\<lambda>p. DeshuffleIndex p 5) = Some (- 1)"
proof -
  have s: "ShuffledBinarySearch 6 [2, 1, 0, 4, 3] 5 = Some (- 1)" by code_simp
  show ?thesis using s C8_deshuffle_out_of_range [of 7 5 6 "[2, 1, 0, 4, 3]"] by simp
qed

text \<open>
  C9 (as amended). With \<open>[0, 1, 2, 3, 4]\<close> shuffled to \<open>[2, 1, 0, 4, 3]\<close>, the search for 3
  returns 4, the position of the value 3 in that layout, and \<^verbatim>\<open>DeshuffleIndex(4, 5)\<close> is 3,
  its sorted rank. \<^verbatim>\<open>DeshuffleIndex(3, 5)\<close> is 4, the sorted rank of the value 4 that the
  layout holds at position 3.
\<close>

theorem C9_literal_scenario:
  "ShuffleSortedArray [0, 1, 2, 3, 4] 5 = Some [2, 1, 0, 4, 3] \<and>
   ShuffledBinarySearch 3 [2, 1, 0, 4, 3] 5 = Some 4 \<and>
   DeshuffleIndex 4 5 = Some 3 \<and>
   DeshuffleIndex 3 5 = Some 4"
  by code_simp

text \<open>
  C9 as the specification states it fails in its first half: the search for 3 in
  \<open>[2, 1, 0, 4, 3]\<close> does not return 3.
\<close>

theorem C9_search_counterexample:
  "\<not> (ShuffledBinarySearch 3 [2, 1, 0, 4, 3] 5 = Some 3 \<and> DeshuffleIndex 3 5 = Some 4)"
  by code_simp

text \<open>
  C10. For every key, every count that is not negative and every backing array of at least
  \<open>count\<close> elements, every read of \<^verbatim>\<open>ShuffledBinarySearch\<close> is at an index in
  \<open>[0, count)\<close>, and the search returns a value: no read leaves the array. The lemma
  \<open>ShuffledBinarySearch_loop_bounds\<close> is the loop invariant, for the loop entered with
  any \<open>index\<close> and remaining count such that their sum is within the array: every later
  read lies from \<open>index\<close> on and below that sum.
\<close>

theorem C10_reads_in_bounds:
  "0 \<le> count \<Longrightarrow> count \<le> int (length shuffled_array) \<Longrightarrow>
   (\<forall>r \<in> set (search_reads val shuffled_array count). 0 \<le> r \<and> r < count) \<and>
   ShuffledBinarySearch val shuffled_array count \<noteq> None"
  using ShuffledBinarySearch_loop_bounds[of count 0 shuffled_array val]
  by (simp add: search_reads_def ShuffledBinarySearch_def)

theorem C10_reads_in_bounds_witness:
  "(0::int) \<le> 5 \<and> (5::int) \<le> int (length [2, 1, 0, 4, 3, 8 :: int]) \<and>
   search_reads 3 [2, 1, 0, 4, 3, 8] 5 = [0, 3, 4] \<and>
   list_all (\<lambda>r. 0 \<le> r \<and> r < 5) (search_reads 3 [2, 1, 0, 4, 3, 8] 5) \<and>
   ShuffledBinarySearch 3 [2, 1, 0, 4, 3, 8] 5 \<noteq> None"
proof -
  have r: "search_reads 3 [2, 1, 0, 4, 3, 8] 5 = [0, 3, 4]" by code_simp
  have h: "(0::int) \<le> 5" "(5::int) \<le> int (length [2, 1, 0, 4, 3, 8 :: int])" by simp_all
  show ?thesis using r h C10_reads_in_bounds [OF h, of 3] by (simp add: list_all_iff)
qed

end
